theory Spec2Isabelle
  imports Main "HOL-Library.Word" "HOL-Library.Multiset" "HOL-Library.Sublist"
begin

section \<open>Data model\<close>

text \<open>
  The river library (namespace \<open>river\<close>): \<open>builder.hpp\<close>, \<open>builder.cpp\<close>, \<open>link.hpp\<close>,
  \<open>channel.hpp\<close>, \<open>channel.cpp\<close>, \<open>rivulet.hpp\<close>, \<open>rivulet.cpp\<close>, \<open>river.hpp\<close>, \<open>lock.hpp\<close>.

  Heap objects reached through \<open>std::shared_ptr\<close> are kept in explicit stores: a \<open>Link\<close> lives
  at a natural-number address in \<open>links\<close>, the byte vector of a \<open>River\<close> at an address in
  \<open>rivers\<close>; \<open>new\<close> takes the next unused address. A null \<open>shared_ptr\<close> is \<open>None\<close>. The
  metadata tree is owned from parent to child only, so it is a datatype; a pointer to one
  of its nodes is the list of child names leading to it.
\<close>

type_synonym byte = "8 word"

text \<open>Outcomes that are not a return value: a failed \<open>assert\<close>, a dereferenced null pointer,
  the use of a \<open>size_t\<close> that was never assigned, a \<open>memcpy\<close> outside its buffer.\<close>

datatype fault = AssertionFailed | NullDereference | IndeterminateValue | OutOfBounds

text \<open>\<open>struct Link\<close> (link.hpp). \<open>new Link\<close> default-initialises: the two shared pointers are
  null, the three \<open>size_t\<close> members hold no determinate value, written \<open>None\<close>.\<close>

record Link =
  river :: "nat option"
  channel_offset :: "nat option"
  rivulet_offset :: "nat option"
  rivulet_size :: "nat option"
  lock :: "nat option"

definition new_Link :: Link where
  "new_Link = \<lparr>river = None, channel_offset = None, rivulet_offset = None,
                rivulet_size = None, lock = None\<rparr>"

text \<open>\<open>struct Node\<close> (builder.hpp). \<open>channel_info\<close> holds the object representation of the
  initial value; \<open>ChannelInfo<T>::size()\<close> is \<open>sizeof(T)\<close>, the length of that byte list.\<close>

datatype node = Node (name: string) (channel_info: "byte list option") (link: "nat option")
  (children: "node list")

text \<open>Calls on the externally supplied \<open>Lock\<close> objects, in the order they happen.\<close>

datatype lock_event = Acquire nat | Release nat

record state =
  tree :: node
  links :: "nat \<Rightarrow> Link"
  next_link :: nat
  rivers :: "nat \<Rightarrow> byte list"
  next_river :: nat
  lock_trace :: "lock_event list"

text \<open>A \<open>Builder\<close>: the default constructor makes the root builder (\<open>is_root = true\<close>, its
  \<open>root\<close> the tree's root node); \<open>Builder(node)\<close> makes a builder whose \<open>root\<close> is the node
  at the given path and \<open>is_root = false\<close>.\<close>

datatype builder = RootBuilder | SubBuilder "string list"

fun is_root :: "builder \<Rightarrow> bool" where
  "is_root RootBuilder = True"
| "is_root (SubBuilder p) = False"

fun root :: "builder \<Rightarrow> string list" where
  "root RootBuilder = []"
| "root (SubBuilder p) = p"

text \<open>Handles. \<open>Channel<T>\<close> carries its \<open>Linkable::link\<close> and \<open>sizeof(T)\<close>; \<open>Rivulet\<close> only
  its link.\<close>

datatype Channel = Channel (channel_link: "nat option") (channel_size: nat)

datatype Rivulet = Rivulet (rivulet_link: "nat option")

abbreviation ERR_INVALID :: int where "ERR_INVALID \<equiv> 1"
abbreviation ERR_NOTFOUND :: int where "ERR_NOTFOUND \<equiv> 2"
abbreviation ERR_DUPE :: int where "ERR_DUPE \<equiv> 3"
abbreviation ERR_NOTROOT :: int where "ERR_NOTROOT \<equiv> 4"

text \<open>\<open>Builder::Builder()\<close>: a root node with empty name, no channel, no link, no children.\<close>

definition init_state :: state where
  "init_state = \<lparr>tree = Node [] None None [], links = (\<lambda>_. new_Link), next_link = 0,
                  rivers = (\<lambda>_. []), next_river = 0, lock_trace = []\<rparr>"

section \<open>Path tokenization (\<open>Builder::tokenize_path\<close>)\<close>

text \<open>The \<open>while (std::getline(ss, token, '.'))\<close> loop: each call takes the characters up
  to the next dot and discards the dot; at the end of input with nothing read it fails and
  the loop stops.\<close>

function getline_tokens :: "string \<Rightarrow> string list" where
  "getline_tokens s =
     (if s = [] then []
      else let token = takeWhile (\<lambda>c. c \<noteq> CHR ''.'') s;
               rest = dropWhile (\<lambda>c. c \<noteq> CHR ''.'') s
           in if rest = [] then [token] else token # getline_tokens (tl rest))"
  by pat_completeness auto
termination
proof (relation "measure length")
  fix s :: string and token rest
  assume "s \<noteq> []" and r: "rest = dropWhile (\<lambda>c. c \<noteq> CHR ''.'') s" and "rest \<noteq> []"
  have "length (tl rest) < length rest" using \<open>rest \<noteq> []\<close> by (cases rest) auto
  also have "\<dots> \<le> length s" unfolding r by (rule length_dropWhile_le)
  finally show "(tl rest, s) \<in> measure length" by simp
qed simp

text \<open>\<open>std::isalnum\<close> in the "C" locale: the ASCII digits and letters.\<close>

definition isalnum :: "char \<Rightarrow> bool" where
  "isalnum c = (let n = (of_char c :: nat) in
     (48 \<le> n \<and> n \<le> 57) \<or> (65 \<le> n \<and> n \<le> 90) \<or> (97 \<le> n \<and> n \<le> 122))"

definition char_is_invalid :: "char \<Rightarrow> bool" where
  "char_is_invalid c = (\<not> isalnum c \<and> c \<noteq> CHR ''_'' \<and> c \<noteq> CHR ''.'')"

text \<open>The \<open>for (const std::string& token : tokens)\<close> loop.\<close>

fun check_tokens :: "string list \<Rightarrow> int" where
  "check_tokens [] = 0"
| "check_tokens (token # tokens) =
     (if token = [] then ERR_INVALID
      else if find char_is_invalid token \<noteq> None then ERR_INVALID
      else check_tokens tokens)"

definition tokenize_path :: "string \<Rightarrow> int \<times> string list" where
  "tokenize_path path =
     (let tokens = getline_tokens path
      in if tokens = [] then (ERR_INVALID, tokens) else (check_tokens tokens, tokens))"

text \<open>Joining tokens with dots, the inverse the specification asks for.\<close>

fun join_tokens :: "string list \<Rightarrow> string" where
  "join_tokens [] = []"
| "join_tokens [t] = t"
| "join_tokens (t # ts) = t @ CHR ''.'' # join_tokens ts"

section \<open>The metadata tree\<close>

text \<open>The search loop of \<open>insert_node\<close>: the index of the first child whose name is the
  token.\<close>

fun find_child :: "string \<Rightarrow> node list \<Rightarrow> nat option" where
  "find_child token [] = None"
| "find_child token (c # cs) =
     (if name c = token then Some 0 else map_option Suc (find_child token cs))"

text \<open>\<open>Builder::insert_node(node, path, index, create, node_ret)\<close>, with the path given
  from \<open>index\<close> on. The result is the tree after the call and the node \<open>node_ret\<close> points
  to (\<open>None\<close> when it was left null).\<close>

fun insert_node :: "node \<Rightarrow> string list \<Rightarrow> bool \<Rightarrow> node \<times> node option" where
  "insert_node n [] create = (n, Some n)"
| "insert_node (Node nm ci l cs) (token # path) create =
     (case find_child token cs of
        Some i \<Rightarrow>
          (case insert_node (cs ! i) path create of
             (c', ret) \<Rightarrow> (Node nm ci l (cs[i := c']), ret))
      | None \<Rightarrow>
          if \<not> create then (Node nm ci l cs, None)
          else (case insert_node (Node token None None []) path create of
                  (c', ret) \<Rightarrow> (Node nm ci l (cs @ [c']), ret)))"

text \<open>Following a node pointer: the node a path leads to, and a write through the
  pointer.\<close>

fun node_at :: "node \<Rightarrow> string list \<Rightarrow> node option" where
  "node_at n [] = Some n"
| "node_at (Node nm ci l cs) (token # path) =
     (case find_child token cs of None \<Rightarrow> None | Some i \<Rightarrow> node_at (cs ! i) path)"

fun update_at :: "string list \<Rightarrow> (node \<Rightarrow> node) \<Rightarrow> node \<Rightarrow> node" where
  "update_at [] f n = f n"
| "update_at (token # path) f (Node nm ci l cs) =
     (case find_child token cs of
        None \<Rightarrow> Node nm ci l cs
      | Some i \<Rightarrow> Node nm ci l (cs[i := update_at path f (cs ! i)]))"

text \<open>\<open>Builder::for_each_node(node, func)\<close>: pre-order, stopping at the first non-zero
  return. \<open>func\<close> works on a state of its own (the link store, or a running sum).\<close>

fun for_each_node :: "(node \<Rightarrow> 's \<Rightarrow> fault + int \<times> 's) \<Rightarrow> node \<Rightarrow> 's \<Rightarrow> fault + int \<times> 's"
  and for_each_children :: "(node \<Rightarrow> 's \<Rightarrow> fault + int \<times> 's) \<Rightarrow> node list \<Rightarrow> 's \<Rightarrow> fault + int \<times> 's"
  where
  "for_each_node func (Node nm ci l cs) s =
     (case func (Node nm ci l cs) s of
        Inl e \<Rightarrow> Inl e
      | Inr (ret, s1) \<Rightarrow> if ret \<noteq> 0 then Inr (ret, s1) else for_each_children func cs s1)"
| "for_each_children func [] s = Inr (0, s)"
| "for_each_children func (c # cs) s =
     (case for_each_node func c s of
        Inl e \<Rightarrow> Inl e
      | Inr (ret, s1) \<Rightarrow> if ret \<noteq> 0 then Inr (ret, s1) else for_each_children func cs s1)"

text \<open>\<open>for_each_node(root, remove_link)\<close> of \<open>build\<close>: the one traversal whose function
  writes to the node itself (\<open>node->link.reset()\<close>) and always returns 0.\<close>

fun remove_link :: "node \<Rightarrow> node" where
  "remove_link (Node nm ci l cs) = Node nm ci None (map remove_link cs)"

section \<open>Declarations\<close>

text \<open>\<open>link.reset(new Link)\<close> when the node has no link yet; the result is the address of
  the node's link.\<close>

definition ensure_link :: "node \<Rightarrow> state \<Rightarrow> nat \<times> state" where
  "ensure_link n s =
     (case link n of
        Some k \<Rightarrow> (k, s)
      | None \<Rightarrow> (next_link s,
                 s\<lparr>links := (links s)(next_link s := new_Link), next_link := Suc (next_link s)\<rparr>))"

text \<open>\<open>Builder::channel<T>(path, init_val, channel)\<close>. The result carries the return code
  and the caller's handle after the call.\<close>

definition Builder_channel ::
  "builder \<Rightarrow> string \<Rightarrow> byte list \<Rightarrow> Channel \<Rightarrow> state \<Rightarrow> fault + int \<times> Channel \<times> state" where
  "Builder_channel b path init_val channel s =
     (case tokenize_path path of
        (tokenize_ret, tokens) \<Rightarrow>
          if tokenize_ret \<noteq> 0 then Inr (tokenize_ret, channel, s)
          else (case insert_node (tree s) (root b @ tokens) True of
                  (t1, None) \<Rightarrow> Inl NullDereference
                | (t1, Some channel_node) \<Rightarrow>
                    if channel_info channel_node \<noteq> None
                    then Inr (ERR_DUPE, channel, s\<lparr>tree := t1\<rparr>)
                    else (case ensure_link channel_node (s\<lparr>tree := t1\<rparr>) of
                            (k, s1) \<Rightarrow>
                              Inr (0, Channel (Some k) (channel_size channel),
                                   s1\<lparr>tree := update_at (root b @ tokens)
                                      (\<lambda>n. Node (last tokens) (Some init_val) (Some k) (children n))
                                      (tree s1)\<rparr>))))"

text \<open>\<open>Builder::rivulet(path, rivulet)\<close>.\<close>

definition Builder_rivulet ::
  "builder \<Rightarrow> string \<Rightarrow> Rivulet \<Rightarrow> state \<Rightarrow> fault + int \<times> Rivulet \<times> state" where
  "Builder_rivulet b path rivulet s =
     (case tokenize_path path of
        (tokenize_ret, tokens) \<Rightarrow>
          if tokenize_ret \<noteq> 0 then Inr (tokenize_ret, rivulet, s)
          else (case insert_node (tree s) (root b @ tokens) False of
                  (t1, None) \<Rightarrow> Inr (ERR_NOTFOUND, rivulet, s\<lparr>tree := t1\<rparr>)
                | (t1, Some rivulet_node) \<Rightarrow>
                    (case ensure_link rivulet_node (s\<lparr>tree := t1\<rparr>) of
                       (k, s1) \<Rightarrow>
                         Inr (0, Rivulet (Some k),
                              s1\<lparr>tree := update_at (root b @ tokens)
                                 (\<lambda>n. Node (name n) (channel_info n) (Some k) (children n))
                                 (tree s1)\<rparr>))))"

text \<open>The two lambdas of \<open>Builder::lock\<close>, over the link store.\<close>

definition check_for_locks :: "node \<Rightarrow> (nat \<Rightarrow> Link) \<Rightarrow> fault + int \<times> (nat \<Rightarrow> Link)" where
  "check_for_locks n ls =
     (case link n of
        None \<Rightarrow> Inl AssertionFailed
      | Some k \<Rightarrow> Inr (if lock (ls k) \<noteq> None then - 1 else 0, ls))"

definition assign_lock :: "nat option \<Rightarrow> node \<Rightarrow> (nat \<Rightarrow> Link) \<Rightarrow> fault + int \<times> (nat \<Rightarrow> Link)" where
  "assign_lock lk n ls =
     (case link n of
        None \<Rightarrow> Inl AssertionFailed
      | Some k \<Rightarrow>
          if lock (ls k) \<noteq> None then Inl AssertionFailed
          else Inr (0, ls(k := (ls k)\<lparr>lock := lk\<rparr>)))"

text \<open>\<open>Builder::lock(path, lock)\<close>.\<close>

definition Builder_lock :: "builder \<Rightarrow> string \<Rightarrow> nat option \<Rightarrow> state \<Rightarrow> fault + int \<times> state" where
  "Builder_lock b path lk s =
     (case tokenize_path path of
        (tokenize_ret, tokens) \<Rightarrow>
          if tokenize_ret \<noteq> 0 then Inr (tokenize_ret, s)
          else (case insert_node (tree s) (root b @ tokens) False of
                  (t1, None) \<Rightarrow> Inr (ERR_NOTFOUND, s\<lparr>tree := t1\<rparr>)
                | (t1, Some n) \<Rightarrow>
                    (case for_each_node check_for_locks n (links s) of
                       Inl e \<Rightarrow> Inl e
                     | Inr (ret, ls0) \<Rightarrow>
                         if ret \<noteq> 0 then Inr (ERR_DUPE, s\<lparr>tree := t1, links := ls0\<rparr>)
                         else (case for_each_node (assign_lock lk) n ls0 of
                                 Inl e \<Rightarrow> Inl e
                               | Inr (ret1, ls1) \<Rightarrow> Inr (0, s\<lparr>tree := t1, links := ls1\<rparr>)))))"

text \<open>\<open>Builder::sub(path, builder)\<close>.\<close>

definition Builder_sub :: "builder \<Rightarrow> string \<Rightarrow> builder \<Rightarrow> state \<Rightarrow> fault + int \<times> builder \<times> state" where
  "Builder_sub b path builder s =
     (case tokenize_path path of
        (tokenize_ret, tokens) \<Rightarrow>
          if tokenize_ret \<noteq> 0 then Inr (tokenize_ret, builder, s)
          else (case insert_node (tree s) (root b @ tokens) True of
                  (t1, ret) \<Rightarrow> Inr (0, SubBuilder (root b @ tokens), s\<lparr>tree := t1\<rparr>)))"

section \<open>Building\<close>

text \<open>\<open>std::vector::resize\<close> (new bytes are zero) and \<open>std::memcpy\<close> into a vector at an
  offset.\<close>

definition resize :: "byte list \<Rightarrow> nat \<Rightarrow> byte list" where
  "resize v n = (if n \<le> length v then take n v else v @ replicate (n - length v) 0)"

definition memcpy :: "byte list \<Rightarrow> nat \<Rightarrow> byte list \<Rightarrow> byte list" where
  "memcpy dest off src = take off dest @ src @ drop (off + length src) dest"

text \<open>The \<open>sum_size\<close> lambda and the loop that runs it over the subtree of every child.\<close>

definition sum_size :: "node \<Rightarrow> nat \<Rightarrow> fault + int \<times> nat" where
  "sum_size n acc =
     Inr (0, case channel_info n of Some iv \<Rightarrow> acc + length iv | None \<Rightarrow> acc)"

definition sum_children :: "node list \<Rightarrow> nat" where
  "sum_children cs =
     fold (\<lambda>child acc. case for_each_node sum_size child acc of Inr (ret, a) \<Rightarrow> a | Inl e \<Rightarrow> acc) cs 0"

text \<open>\<open>Builder::build_node(node, river)\<close>; \<open>r\<close> is the address of the river, the pair is the
  link store and the river's storage vector.\<close>

fun build_node :: "nat \<Rightarrow> node \<Rightarrow> (nat \<Rightarrow> Link) \<times> byte list \<Rightarrow> fault + (nat \<Rightarrow> Link) \<times> byte list"
  and build_children :: "nat \<Rightarrow> node list \<Rightarrow> (nat \<Rightarrow> Link) \<times> byte list \<Rightarrow> fault + (nat \<Rightarrow> Link) \<times> byte list"
  where
  "build_node r (Node nm ci l cs) (ls, st) =
     (case (case l of
              None \<Rightarrow> (ls, st)
            | Some k \<Rightarrow>
                (let ls1 = ls(k := (ls k)\<lparr>river := Some r\<rparr>)
                 in case ci of
                      None \<Rightarrow> (ls1, st)
                    | Some iv \<Rightarrow>
                        (let old_river_size = length st;
                             st1 = resize st (old_river_size + length iv);
                             ls2 = ls1(k := (ls1 k)\<lparr>channel_offset := Some old_river_size\<rparr>)
                         in (ls2, memcpy st1 old_river_size iv)))) of
        (ls3, st3) \<Rightarrow>
          (case build_children r cs (ls3, st3) of
             Inl e \<Rightarrow> Inl e
           | Inr (ls4, st4) \<Rightarrow>
               (case l of
                  None \<Rightarrow> Inr (ls4, st4)
                | Some k \<Rightarrow>
                    (let ls5 = ls4(k := (ls4 k)\<lparr>rivulet_size := Some (sum_children cs)\<rparr>)
                     in case cs of
                          [] \<Rightarrow> Inr (ls5(k := (ls5 k)\<lparr>rivulet_offset := Some 0\<rparr>), st4)
                        | c0 # cs' \<Rightarrow>
                            (case link c0 of
                               None \<Rightarrow> Inl NullDereference
                             | Some k0 \<Rightarrow>
                                 Inr (ls5(k := (ls5 k)\<lparr>rivulet_offset := channel_offset (ls5 k0)\<rparr>),
                                      st4))))))"
| "build_children r [] (ls, st) = Inr (ls, st)"
| "build_children r (c # cs) (ls, st) =
     (case build_node r c (ls, st) of
        Inl e \<Rightarrow> Inl e
      | Inr (ls1, st1) \<Rightarrow> build_children r cs (ls1, st1))"

text \<open>Modelled from the spec: \<open>River::River()\<close> is declared in river.hpp and defined outside
  the given sources; by the specification, "\<open>build()\<close> ... allocates new Backing Storage",
  a byte buffer that starts empty and grows by one channel at a time.\<close>

definition new_River :: "state \<Rightarrow> nat \<times> state" where
  "new_River s = (next_river s, s\<lparr>rivers := (rivers s)(next_river s := []),
                                  next_river := Suc (next_river s)\<rparr>)"

text \<open>\<open>Builder::build(river_ret)\<close>; the river pointer is returned with the code.\<close>

definition Builder_build :: "builder \<Rightarrow> state \<Rightarrow> fault + int \<times> nat option \<times> state" where
  "Builder_build b s =
     (if \<not> is_root b then Inr (ERR_NOTROOT, None, s)
      else (case new_River s of
              (r, s1) \<Rightarrow>
                (case build_node r (tree s1) (links s1, rivers s1 r) of
                   Inl e \<Rightarrow> Inl e
                 | Inr (ls, st) \<Rightarrow>
                     Inr (0, Some r, s1\<lparr>links := ls, rivers := (rivers s1)(r := st),
                                         tree := remove_link (tree s1)\<rparr>))))"

section \<open>Handles\<close>

text \<open>Modelled from the spec: \<open>Linkable::linked()\<close> is declared in link.hpp and defined
  outside the given sources; by the specification, a handle "is linked exactly when its
  Link has a non-null storage reference". A handle that was never given a Link has none.\<close>

definition linked :: "nat option \<Rightarrow> state \<Rightarrow> bool" where
  "linked lnk s = (case lnk of None \<Rightarrow> False | Some k \<Rightarrow> river (links s k) \<noteq> None)"

definition acquire :: "nat option \<Rightarrow> state \<Rightarrow> state" where
  "acquire lk s = (case lk of None \<Rightarrow> s | Some l \<Rightarrow> s\<lparr>lock_trace := lock_trace s @ [Acquire l]\<rparr>)"

definition release :: "nat option \<Rightarrow> state \<Rightarrow> state" where
  "release lk s = (case lk of None \<Rightarrow> s | Some l \<Rightarrow> s\<lparr>lock_trace := lock_trace s @ [Release l]\<rparr>)"

text \<open>A \<open>memcpy\<close> of \<open>n\<close> bytes out of a river at an offset, and one into it.\<close>

definition load :: "nat \<Rightarrow> nat option \<Rightarrow> nat \<Rightarrow> state \<Rightarrow> fault + byte list" where
  "load r off n s =
     (case off of
        None \<Rightarrow> Inl IndeterminateValue
      | Some k \<Rightarrow> if k + n \<le> length (rivers s r) then Inr (take n (drop k (rivers s r)))
                  else Inl OutOfBounds)"

definition store :: "nat \<Rightarrow> nat option \<Rightarrow> nat \<Rightarrow> byte list \<Rightarrow> state \<Rightarrow> fault + state" where
  "store r off n src s =
     (case off of
        None \<Rightarrow> Inl IndeterminateValue
      | Some k \<Rightarrow>
          if k + n \<le> length (rivers s r) \<and> n \<le> length src
          then Inr (s\<lparr>rivers := (rivers s)(r := memcpy (rivers s r) k (take n src))\<rparr>)
          else Inl OutOfBounds)"

text \<open>\<open>ChannelBase::serialize(dest)\<close>; \<open>dest\<close> is the caller's buffer of \<open>size()\<close> bytes, and
  its contents after the call are returned.\<close>

definition serialize :: "Channel \<Rightarrow> byte list \<Rightarrow> state \<Rightarrow> fault + byte list \<times> state" where
  "serialize h dest s =
     (if \<not> linked (channel_link h) s then Inr (dest, s)
      else (case channel_link h of
              None \<Rightarrow> Inl NullDereference
            | Some k \<Rightarrow>
                (case river (links s k) of
                   None \<Rightarrow> Inl NullDereference
                 | Some r \<Rightarrow>
                     (let s1 = acquire (lock (links s k)) s
                      in case load r (channel_offset (links s1 k)) (channel_size h) s1 of
                           Inl e \<Rightarrow> Inl e
                         | Inr bytes \<Rightarrow> Inr (memcpy dest 0 bytes, release (lock (links s1 k)) s1)))))"

text \<open>\<open>ChannelBase::deserialize(src)\<close>.\<close>

definition deserialize :: "Channel \<Rightarrow> byte list \<Rightarrow> state \<Rightarrow> fault + state" where
  "deserialize h src s =
     (if \<not> linked (channel_link h) s then Inr s
      else (case channel_link h of
              None \<Rightarrow> Inl NullDereference
            | Some k \<Rightarrow>
                (case river (links s k) of
                   None \<Rightarrow> Inl NullDereference
                 | Some r \<Rightarrow>
                     (let s1 = acquire (lock (links s k)) s
                      in case store r (channel_offset (links s1 k)) (channel_size h) src s1 of
                           Inl e \<Rightarrow> Inl e
                         | Inr s2 \<Rightarrow> Inr (release (lock (links s2 k)) s2)))))"

text \<open>\<open>Channel<T>::get()\<close>: \<open>T val = T()\<close> is \<open>sizeof(T)\<close> zero bytes, then
  \<open>serialize(&val)\<close>. \<open>Channel<T>::set(val)\<close> is \<open>deserialize(&val)\<close>.\<close>

definition Channel_get :: "Channel \<Rightarrow> state \<Rightarrow> fault + byte list \<times> state" where
  "Channel_get h s = serialize h (replicate (channel_size h) 0) s"

definition Channel_set :: "Channel \<Rightarrow> byte list \<Rightarrow> state \<Rightarrow> fault + state" where
  "Channel_set h val s = deserialize h val s"

text \<open>\<open>Rivulet::read(dest)\<close>: \<open>dest\<close> is \<open>None\<close> for a null pointer, else the caller's
  buffer, whose contents after the call are returned.\<close>

definition Rivulet_read :: "Rivulet \<Rightarrow> byte list option \<Rightarrow> state \<Rightarrow> fault + byte list option \<times> state" where
  "Rivulet_read h dest s =
     (if dest = None \<or> \<not> linked (rivulet_link h) s then Inr (dest, s)
      else (case (dest, rivulet_link h) of
              (Some buf, Some k) \<Rightarrow>
                (case (river (links s k), rivulet_size (links s k)) of
                   (Some r, Some n) \<Rightarrow>
                     (let s1 = acquire (lock (links s k)) s
                      in case load r (rivulet_offset (links s1 k)) n s1 of
                           Inl e \<Rightarrow> Inl e
                         | Inr bytes \<Rightarrow>
                             if n \<le> length buf
                             then Inr (Some (memcpy buf 0 bytes), release (lock (links s1 k)) s1)
                             else Inl OutOfBounds)
                 | (Some r, None) \<Rightarrow> Inl IndeterminateValue
                 | (None, x) \<Rightarrow> Inl NullDereference)
            | (x, y) \<Rightarrow> Inl NullDereference))"

text \<open>\<open>Rivulet::write(src)\<close>.\<close>

definition Rivulet_write :: "Rivulet \<Rightarrow> byte list option \<Rightarrow> state \<Rightarrow> fault + state" where
  "Rivulet_write h src s =
     (if src = None \<or> \<not> linked (rivulet_link h) s then Inr s
      else (case (src, rivulet_link h) of
              (Some buf, Some k) \<Rightarrow>
                (case (river (links s k), rivulet_size (links s k)) of
                   (Some r, Some n) \<Rightarrow>
                     (let s1 = acquire (lock (links s k)) s
                      in case store r (rivulet_offset (links s1 k)) n buf s1 of
                           Inl e \<Rightarrow> Inl e
                         | Inr s2 \<Rightarrow> Inr (release (lock (links s2 k)) s2))
                 | (Some r, None) \<Rightarrow> Inl IndeterminateValue
                 | (None, x) \<Rightarrow> Inl NullDereference)
            | (x, y) \<Rightarrow> Inl NullDereference))"

text \<open>\<open>Rivulet::size()\<close>.\<close>

definition Rivulet_size :: "Rivulet \<Rightarrow> state \<Rightarrow> fault + nat" where
  "Rivulet_size h s =
     (if \<not> linked (rivulet_link h) s then Inr 0
      else (case rivulet_link h of
              None \<Rightarrow> Inl NullDereference
            | Some k \<Rightarrow>
                (case rivulet_size (links s k) of
                   None \<Rightarrow> Inl IndeterminateValue
                 | Some n \<Rightarrow> Inr n)))"

section \<open>Notions used to state the properties\<close>

text \<open>The addresses of the links held by the nodes of a subtree, in pre-order.\<close>

fun tree_links :: "node \<Rightarrow> nat list" where
  "tree_links (Node nm ci l cs) =
     (case l of None \<Rightarrow> [] | Some k \<Rightarrow> [k]) @ concat (map tree_links cs)"

text \<open>The heap shape every reachable state has: no two nodes share a \<open>Link\<close> (each gets
  its own from \<open>new Link\<close>), and every link of the tree has been allocated.\<close>

definition well_formed :: "state \<Rightarrow> bool" where
  "well_formed s = (distinct (tree_links (tree s)) \<and>
           list_all (\<lambda>k. k < next_link s) (tree_links (tree s)))"

text \<open>The bytes \<open>build_node\<close> appends for a subtree: the initial values of the channel
  nodes that hold a link, in pre-order. \<open>all_bytes\<close> takes every channel node, linked or
  not, as \<open>sum_size\<close> does.\<close>

fun built_bytes :: "node \<Rightarrow> byte list" where
  "built_bytes (Node nm ci l cs) =
     (case l of None \<Rightarrow> [] | Some k \<Rightarrow> (case ci of None \<Rightarrow> [] | Some iv \<Rightarrow> iv))
     @ concat (map built_bytes cs)"

text \<open>The two writes of \<open>build_node\<close> to the node's own link, before and after the
  children, and the bytes it appends for the node itself.\<close>

definition own_bytes :: "byte list option \<Rightarrow> byte list" where
  "own_bytes ci = (case ci of None \<Rightarrow> [] | Some iv \<Rightarrow> iv)"

definition pre_link :: "nat \<Rightarrow> byte list option \<Rightarrow> nat \<Rightarrow> Link \<Rightarrow> Link" where
  "pre_link r ci n lk = (case ci of None \<Rightarrow> lk\<lparr>river := Some r\<rparr>
                         | Some iv \<Rightarrow> lk\<lparr>river := Some r, channel_offset := Some n\<rparr>)"

definition post_link :: "node list \<Rightarrow> (nat \<Rightarrow> Link) \<Rightarrow> Link \<Rightarrow> Link" where
  "post_link cs ls lk = lk\<lparr>rivulet_size := Some (sum_children cs),
       rivulet_offset := (case cs of [] \<Rightarrow> Some 0 | c0 # cs' \<Rightarrow> channel_offset (ls (the (link c0))))\<rparr>"

fun all_bytes :: "node \<Rightarrow> byte list" where
  "all_bytes (Node nm ci l cs) =
     (case ci of None \<Rightarrow> [] | Some iv \<Rightarrow> iv) @ concat (map all_bytes cs)"

text \<open>The channels of a subtree that are built, as (link address, size) in pre-order, and
  the layout in which they follow one another in river \<open>r\<close> from offset \<open>off\<close> on.\<close>

fun chan_slots :: "node \<Rightarrow> (nat \<times> nat) list" where
  "chan_slots (Node nm ci l cs) =
     (case l of None \<Rightarrow> [] | Some k \<Rightarrow> (case ci of None \<Rightarrow> [] | Some iv \<Rightarrow> [(k, length iv)]))
     @ concat (map chan_slots cs)"

fun laid_out :: "(nat \<Rightarrow> Link) \<Rightarrow> nat \<Rightarrow> nat \<Rightarrow> (nat \<times> nat) list \<Rightarrow> bool" where
  "laid_out ls r off [] = True"
| "laid_out ls r off ((k, n) # xs) =
     (river (ls k) = Some r \<and> channel_offset (ls k) = Some off \<and> laid_out ls r (off + n) xs)"

text \<open>Every channel node of the subtree holds a link (true until the first build).\<close>

fun channels_linked :: "node \<Rightarrow> bool" where
  "channels_linked (Node nm ci l cs) =
     ((ci = None \<or> l \<noteq> None) \<and> list_all channels_linked cs)"

text \<open>A client of the library between two builds: any sequence of declarations and handle
  operations, run in order.\<close>

datatype command =
    Channel_decl builder string "byte list" Channel
  | Rivulet_decl builder string Rivulet
  | Lock_decl builder string "nat option"
  | Sub_decl builder string builder
  | Get_op Channel
  | Set_op Channel "byte list"
  | Read_op Rivulet "byte list option"
  | Write_op Rivulet "byte list option"

fun run_command :: "command \<Rightarrow> state \<Rightarrow> fault + state" where
  "run_command (Channel_decl b path v c) s = map_sum id (\<lambda>(code, h, s'). s') (Builder_channel b path v c s)"
| "run_command (Rivulet_decl b path h) s = map_sum id (\<lambda>(code, h', s'). s') (Builder_rivulet b path h s)"
| "run_command (Lock_decl b path lk) s = map_sum id (\<lambda>(code, s'). s') (Builder_lock b path lk s)"
| "run_command (Sub_decl b path b') s = map_sum id (\<lambda>(code, b'', s'). s') (Builder_sub b path b' s)"
| "run_command (Get_op h) s = map_sum id (\<lambda>(v, s'). s') (Channel_get h s)"
| "run_command (Set_op h v) s = Channel_set h v s"
| "run_command (Read_op h dest) s = map_sum id (\<lambda>(v, s'). s') (Rivulet_read h dest s)"
| "run_command (Write_op h src) s = Rivulet_write h src s"

fun run_commands :: "command list \<Rightarrow> state \<Rightarrow> fault + state" where
  "run_commands [] s = Inr s"
| "run_commands (c # cs) s = (case run_command c s of Inl e \<Rightarrow> Inl e | Inr s' \<Rightarrow> run_commands cs s')"

text \<open>What every declaration and handle operation guarantees: links are allocated
  upwards, a link that is allocated and not in the tree is not written, the tree only
  gains links that are new, the heap shape is kept, and a declared channel keeps its
  initial value and its link.\<close>

definition step_ok :: "state \<Rightarrow> state \<Rightarrow> bool" where
  "step_ok s s' =
     (next_link s \<le> next_link s' \<and> next_river s' = next_river s \<and>
      (\<forall>k. k < next_link s \<and> k \<notin> set (tree_links (tree s)) \<longrightarrow> links s' k = links s k) \<and>
      set (tree_links (tree s')) \<subseteq> set (tree_links (tree s)) \<union> {k. next_link s \<le> k} \<and>
      (well_formed s \<longrightarrow> well_formed s') \<and>
      (\<forall>p m v k. node_at (tree s) p = Some m \<and> channel_info m = Some v \<and> link m = Some k \<longrightarrow>
         (\<exists>m'. node_at (tree s') p = Some m' \<and> channel_info m' = Some v \<and> link m' = Some k)))"

text \<open>Every node of the subtree holds a link; no link of the subtree holds a lock; the link
  store after \<open>assign_lock\<close> has run over the subtree.\<close>

fun all_linked :: "node \<Rightarrow> bool" where
  "all_linked (Node nm ci l cs) = (l \<noteq> None \<and> list_all all_linked cs)"

definition lock_free :: "(nat \<Rightarrow> Link) \<Rightarrow> node \<Rightarrow> bool" where
  "lock_free ls n = list_all (\<lambda>k. lock (ls k) = None) (tree_links n)"

definition with_lock :: "nat option \<Rightarrow> node \<Rightarrow> (nat \<Rightarrow> Link) \<Rightarrow> nat \<Rightarrow> Link" where
  "with_lock lk n ls = (\<lambda>k. if k \<in> set (tree_links n) then (ls k)\<lparr>lock := lk\<rparr> else ls k)"

text \<open>The value \<open>get()\<close> returns, without the state after it; a buffer cut into
  consecutive pieces of the given sizes.\<close>

definition channel_value :: "Channel \<Rightarrow> state \<Rightarrow> fault + byte list" where
  "channel_value h s = (case Channel_get h s of Inl e \<Rightarrow> Inl e | Inr (v, u) \<Rightarrow> Inr v)"

fun split_bytes :: "nat list \<Rightarrow> byte list \<Rightarrow> byte list list" where
  "split_bytes [] buf = []"
| "split_bytes (n # ns) buf = take n buf # split_bytes ns (drop n buf)"


section \<open>Evaluation and basic facts\<close>

declare getline_tokens.simps [simp del]

lemmas run_simps = Builder_channel_def Builder_rivulet_def Builder_lock_def Builder_build_def
  Builder_sub_def tokenize_path_def getline_tokens.simps char_is_invalid_def isalnum_def
  ensure_link_def new_Link_def init_state_def new_River_def check_for_locks_def assign_lock_def
  sum_children_def sum_size_def resize_def memcpy_def Let_def build_node.simps

lemma find_child_Some: "find_child t cs = Some i \<Longrightarrow> i < length cs \<and> name (cs ! i) = t"
  by (induction cs arbitrary: i) (auto split: if_splits)

lemma find_child_None: "find_child t cs = None \<Longrightarrow> \<forall>c \<in> set cs. name c \<noteq> t"
  by (induction cs) (auto split: if_splits)

lemma find_child_update:
  "i < length cs \<Longrightarrow> name c' = name (cs ! i) \<Longrightarrow> find_child t (cs[i := c']) = find_child t cs"
proof (induction cs arbitrary: i)
  case Nil
  then show ?case by simp
next
  case (Cons c cs)
  then show ?case by (cases i) auto
qed

lemma find_child_append_new:
  "find_child t cs = None \<Longrightarrow> name c' = t \<Longrightarrow> find_child t (cs @ [c']) = Some (length cs)"
  by (induction cs) (auto split: if_splits)

lemma name_insert_node: "name (fst (insert_node n p c)) = name n"
  by (induction n p c rule: insert_node.induct) (auto split: option.splits prod.splits)

lemma insert_node_ret:
  "insert_node n p c = (n', Some m) \<Longrightarrow> node_at n' p = Some m"
proof (induction n p c arbitrary: n' m rule: insert_node.induct)
  case (1 n create)
  then show ?case by auto
next
  case (2 nm ci l cs token path create)
  show ?case
  proof (cases "find_child token cs")
    case None
    with "2.prems" have cr: create by (auto split: if_splits)
    obtain c' where ins: "insert_node (Node token None None []) path create = (c', Some m)"
      and n': "n' = Node nm ci l (cs @ [c'])"
      using "2.prems" None cr by (auto split: prod.splits)
    have "node_at c' path = Some m" using "2.IH"(1)[OF None _ ins] cr by simp
    moreover have "name c' = token" using name_insert_node[of "Node token None None []" path create] ins by simp
    ultimately show ?thesis using n' None by (simp add: find_child_append_new)
  next
    case (Some i)
    obtain c' where ins: "insert_node (cs ! i) path create = (c', Some m)"
      and n': "n' = Node nm ci l (cs[i := c'])"
      using "2.prems" Some by (auto split: prod.splits)
    have "node_at c' path = Some m" using "2.IH"(2)[OF Some ins] .
    moreover have "name c' = name (cs ! i)" using name_insert_node[of "cs ! i" path create] ins by simp
    moreover have "i < length cs" using Some find_child_Some by blast
    ultimately show ?thesis using n' Some by (simp add: find_child_update)
  qed
qed

lemma insert_node_existing:
  "node_at n p = Some m \<Longrightarrow> insert_node n p c = (n, Some m)"
proof (induction n p c arbitrary: m rule: insert_node.induct)
  case (1 n create)
  then show ?case by simp
next
  case (2 nm ci l cs token path create)
  then obtain i where i: "find_child token cs = Some i" and at: "node_at (cs ! i) path = Some m"
    by (auto split: option.splits)
  have "insert_node (cs ! i) path create = (cs ! i, Some m)" using "2.IH"(2)[OF i at] .
  then show ?case using i by simp
qed

lemma insert_node_lookup_missing:
  "node_at n p = None \<Longrightarrow> insert_node n p False = (n, None)"
proof (induction n p "False" rule: insert_node.induct)
  case (1 n)
  then show ?case by simp
next
  case (2 nm ci l cs token path)
  then show ?case by (auto split: option.splits)
qed

lemma insert_node_lookup: "insert_node n p False = (n, node_at n p)"
  by (cases "node_at n p") (simp_all add: insert_node_lookup_missing insert_node_existing)

lemma insert_node_create_ret: "\<exists>m. snd (insert_node n p True) = Some m"
proof (induction n p "True" rule: insert_node.induct)
  case (1 n)
  then show ?case by simp
next
  case (2 nm ci l cs token path)
  then show ?case by (auto split: option.splits prod.splits)
qed

lemma concat_map_update_same:
  "i < length cs \<Longrightarrow> f c' = f (cs ! i) \<Longrightarrow> concat (map f (cs[i := c'])) = concat (map f cs)"
  by (metis list_update_id map_update nth_map)

lemma tree_links_insert_node: "tree_links (fst (insert_node n p c)) = tree_links n"
proof (induction n p c rule: insert_node.induct)
  case (1 n create)
  then show ?case by simp
next
  case (2 nm ci l cs token path create)
  show ?case
  proof (cases "find_child token cs")
    case None
    then show ?thesis using "2.IH"(1)[OF None] by (auto split: prod.splits)
  next
    case (Some i)
    then have "i < length cs" using find_child_Some by blast
    then show ?thesis using "2.IH"(2)[OF Some] Some
      by (auto split: prod.splits simp: concat_map_update_same)
  qed
qed

lemma tokenize_path_code: "fst (tokenize_path p) = 0 \<or> fst (tokenize_path p) = ERR_INVALID"
proof -
  have "check_tokens ts = 0 \<or> check_tokens ts = ERR_INVALID" for ts
    by (induction ts) auto
  then show ?thesis by (auto simp: tokenize_path_def Let_def)
qed

section \<open>What \<open>tokenize_path\<close> accepts\<close>

lemma join_tokens_Cons: "ts \<noteq> [] \<Longrightarrow> join_tokens (t # ts) = t @ CHR ''.'' # join_tokens ts"
  by (cases ts) simp_all

lemma takeWhile_dropWhile_dot:
  "dropWhile (\<lambda>c. c \<noteq> CHR ''.'') s = x # r \<Longrightarrow> x = CHR ''.'' \<and> s = takeWhile (\<lambda>c. c \<noteq> CHR ''.'') s @ CHR ''.'' # r"
proof -
  assume a: "dropWhile (\<lambda>c. c \<noteq> CHR ''.'') s = x # r"
  have "\<not> (hd (dropWhile (\<lambda>c. c \<noteq> CHR ''.'') s) \<noteq> CHR ''.'')"
    using a hd_dropWhile[of "\<lambda>c. c \<noteq> CHR ''.''" s] by fastforce
  then have x: "x = CHR ''.''" using a by simp
  have "s = takeWhile (\<lambda>c. c \<noteq> CHR ''.'') s @ dropWhile (\<lambda>c. c \<noteq> CHR ''.'') s" by simp
  then show ?thesis using a x by simp
qed

text \<open>What the \<open>getline\<close> loop loses: at most one dot at the end of the path.\<close>

lemma getline_tokens_join:
  "s \<noteq> [] \<Longrightarrow> s = join_tokens (getline_tokens s) \<or> s = join_tokens (getline_tokens s) @ ''.''"
proof (induction s rule: getline_tokens.induct)
  case (1 s)
  let ?tok = "takeWhile (\<lambda>c. c \<noteq> CHR ''.'') s" and ?rest = "dropWhile (\<lambda>c. c \<noteq> CHR ''.'') s"
  show ?case
  proof (cases ?rest)
    case Nil
    then have "getline_tokens s = [?tok]" using "1.prems" by (simp add: getline_tokens.simps[of s])
    moreover have "?tok @ ?rest = s" by (rule takeWhile_dropWhile_id)
    then have "s = ?tok" by (simp only: Nil append_Nil2)
    ultimately show ?thesis by simp
  next
    case (Cons x r)
    then have s: "s = ?tok @ CHR ''.'' # r" using takeWhile_dropWhile_dot by blast
    have g: "getline_tokens s = ?tok # getline_tokens r"
      using "1.prems" Cons by (simp add: getline_tokens.simps[of s] Let_def)
    show ?thesis
    proof (cases "r = []")
      case True
      then have "getline_tokens s = [?tok]" using g by (simp add: getline_tokens.simps[of "[]"])
      then show ?thesis using s True by simp
    next
      case False
      then have ne: "getline_tokens r \<noteq> []" by (simp add: getline_tokens.simps[of r] Let_def)
      have rne: "?rest \<noteq> []" and tlr: "tl ?rest = r" using Cons by simp_all
      have "tl ?rest \<noteq> []" using tlr False by simp
      from "1.IH"[OF "1.prems" refl refl rne this]
      have "r = join_tokens (getline_tokens r) \<or> r = join_tokens (getline_tokens r) @ ''.''"
        using tlr by simp
      then show ?thesis using s g join_tokens_Cons[OF ne, of ?tok] by auto
    qed
  qed
qed

lemma tokenize_path_round_trip:
  "tokenize_path path = (0, tokens) \<Longrightarrow>
   path = join_tokens tokens \<or> path = join_tokens tokens @ ''.''"
proof -
  assume a: "tokenize_path path = (0, tokens)"
  then have t: "tokens = getline_tokens path" and ne: "tokens \<noteq> []"
    by (auto simp: tokenize_path_def Let_def split: if_splits)
  then have "path \<noteq> []" by (auto simp: getline_tokens.simps[of "[]"])
  then show ?thesis using getline_tokens_join t by simp
qed

lemma check_tokens_ok:
  "check_tokens tokens = 0 \<longleftrightarrow> (\<forall>t \<in> set tokens. t \<noteq> [] \<and> (\<forall>c \<in> set t. \<not> char_is_invalid c))"
  by (induction tokens) (auto simp: find_None_iff)

lemma getline_tokens_no_dot: "\<forall>t \<in> set (getline_tokens s). CHR ''.'' \<notin> set t"
proof (induction s rule: getline_tokens.induct)
  case (1 s)
  let ?tok = "takeWhile (\<lambda>c. c \<noteq> CHR ''.'') s" and ?rest = "dropWhile (\<lambda>c. c \<noteq> CHR ''.'') s"
  have tok: "CHR ''.'' \<notin> set ?tok" using set_takeWhileD by fastforce
  show ?case
  proof (cases "s = []")
    case True
    then show ?thesis by (simp add: getline_tokens.simps[of "[]"])
  next
    case False
    show ?thesis
    proof (cases "?rest = []")
      case True
      then show ?thesis using False tok by (simp add: getline_tokens.simps[of s] Let_def)
    next
      case r: False
      then show ?thesis using False tok "1.IH"[OF False refl refl r]
        by (simp add: getline_tokens.simps[of s] Let_def)
    qed
  qed
qed

text \<open>The accepted paths: at least one token, every token non-empty and made of ASCII
  letters, digits and underscores.\<close>

lemma tokenize_path_accepts:
  "fst (tokenize_path path) = 0 \<longleftrightarrow>
     getline_tokens path \<noteq> [] \<and>
     (\<forall>t \<in> set (getline_tokens path). t \<noteq> [] \<and> (\<forall>c \<in> set t. isalnum c \<or> c = CHR ''_''))"
proof -
  have "(\<forall>c \<in> set t. \<not> char_is_invalid c) \<longleftrightarrow> (\<forall>c \<in> set t. isalnum c \<or> c = CHR ''_'')"
    if "t \<in> set (getline_tokens path)" for t
    using getline_tokens_no_dot[of path] that by (auto simp: char_is_invalid_def)
  then show ?thesis by (auto simp: tokenize_path_def Let_def check_tokens_ok)
qed

section \<open>Writes through a node pointer\<close>


lemma node_at_name: "node_at n p = Some m \<Longrightarrow> p \<noteq> [] \<Longrightarrow> name m = last p"
proof (induction n p rule: node_at.induct)
  case (1 n)
  then show ?case by simp
next
  case (2 nm ci l cs token path)
  then obtain i where i: "find_child token cs = Some i" and at: "node_at (cs ! i) path = Some m"
    by (auto split: option.splits)
  show ?case
  proof (cases path)
    case Nil
    then show ?thesis using at i find_child_Some by auto
  next
    case (Cons a list)
    then show ?thesis using "2.IH"[OF i at] by simp
  qed
qed

lemma name_update_at:
  "(\<And>m. node_at n q = Some m \<Longrightarrow> name (f m) = name m) \<Longrightarrow> name (update_at q f n) = name n"
  by (induction q f n rule: update_at.induct) (auto split: option.splits)

lemma node_at_children_only:
  "children n' = children n \<Longrightarrow> p \<noteq> [] \<Longrightarrow> node_at n' p = node_at n p"
  by (cases n; cases n'; cases p) auto

lemma node_at_update_at_same:
  "node_at n q = Some mq \<Longrightarrow> name (f mq) = name mq \<Longrightarrow> node_at (update_at q f n) q = Some (f mq)"
proof (induction q f n rule: update_at.induct)
  case (1 f n)
  then show ?case by simp
next
  case (2 token path f nm ci l cs)
  then obtain i where i: "find_child token cs = Some i" and at: "node_at (cs ! i) path = Some mq"
    by (auto split: option.splits)
  have il: "i < length cs" using i find_child_Some by blast
  have nm: "name (update_at path f (cs ! i)) = name (cs ! i)"
    using name_update_at[of "cs ! i" path f] at "2.prems"(2) by simp
  show ?case using i il "2.IH"[OF i at "2.prems"(2)] nm
    by (simp add: find_child_update)
qed

lemma node_at_update_at_other:
  "node_at n q = Some mq \<Longrightarrow> name (f mq) = name mq \<Longrightarrow> children (f mq) = children mq \<Longrightarrow>
   p \<noteq> q \<Longrightarrow> node_at n p = Some m \<Longrightarrow>
   \<exists>m'. node_at (update_at q f n) p = Some m' \<and> name m' = name m \<and>
        channel_info m' = channel_info m \<and> link m' = link m"
proof (induction q f n arbitrary: p m rule: update_at.induct)
  case (1 f n)
  then have "node_at (f n) p = node_at n p" using node_at_children_only[of "f n" n p] by simp
  then show ?case using 1 by simp
next
  case (2 token path f nm ci l cs)
  from "2.prems"(1) obtain i where i: "find_child token cs = Some i"
    and at: "node_at (cs ! i) path = Some mq"
    by (auto split: option.splits)
  have il: "i < length cs" and ni: "name (cs ! i) = token" using i find_child_Some by blast+
  let ?c' = "update_at path f (cs ! i)"
  have nm': "name ?c' = name (cs ! i)"
    using name_update_at[of "cs ! i" path f] at "2.prems"(2) by simp
  have upd: "update_at (token # path) f (Node nm ci l cs) = Node nm ci l (cs[i := ?c'])"
    using i by simp
  show ?case
  proof (cases p)
    case Nil
    then show ?thesis using "2.prems"(5) upd by auto
  next
    case (Cons t ts)
    from "2.prems"(5) Cons obtain j where j: "find_child t cs = Some j"
      and atj: "node_at (cs ! j) ts = Some m"
      by (auto split: option.splits)
    have jl: "j < length cs" and nj: "name (cs ! j) = t" using j find_child_Some by blast+
    have fj: "find_child t (cs[i := ?c']) = Some j" using j il nm' by (simp add: find_child_update)
    show ?thesis
    proof (cases "j = i")
      case True
      then have "t = token" using ni nj by simp
      then have "ts \<noteq> path" using "2.prems"(4) Cons by simp
      from "2.IH"[OF i at "2.prems"(2) "2.prems"(3) this] atj True
      obtain m' where "node_at ?c' ts = Some m'" "name m' = name m"
        "channel_info m' = channel_info m" "link m' = link m" by blast
      then show ?thesis using upd Cons fj True il by simp
    next
      case False
      then show ?thesis using upd Cons fj atj jl by simp
    qed
  qed
qed

lemma node_at_insert_node:
  "node_at n p = Some m \<Longrightarrow>
   \<exists>m'. node_at (fst (insert_node n q c)) p = Some m' \<and> name m' = name m \<and>
        channel_info m' = channel_info m \<and> link m' = link m"
proof (induction n q c arbitrary: p m rule: insert_node.induct)
  case (1 n create)
  then show ?case by simp
next
  case (2 nm ci l cs token path create)
  show ?case
  proof (cases p)
    case Nil
    then show ?thesis using "2.prems" by (auto split: option.splits prod.splits)
  next
    case (Cons t ts)
    from "2.prems" Cons obtain j where j: "find_child t cs = Some j"
      and atj: "node_at (cs ! j) ts = Some m"
      by (auto split: option.splits)
    have jl: "j < length cs" and nj: "name (cs ! j) = t" using j find_child_Some by blast+
    show ?thesis
    proof (cases "find_child token cs")
      case None
      have fj: "find_child t (cs @ [x]) = Some j" for x
        using j by (induction cs arbitrary: j) (auto split: if_splits)
      show ?thesis using None Cons atj jl fj j
        by (auto split: prod.splits simp: nth_append)
    next
      case (Some i)
      have il: "i < length cs" using Some find_child_Some by blast
      obtain c' ret where ins: "insert_node (cs ! i) path create = (c', ret)" by fastforce
      have nm': "name c' = name (cs ! i)" using name_insert_node[of "cs ! i" path create] ins by simp
      have fj: "find_child t (cs[i := c']) = Some j" using j il nm' by (simp add: find_child_update)
      show ?thesis
      proof (cases "j = i")
        case True
        from "2.IH"(2)[OF Some, of ts m] atj True ins
        obtain m' where "node_at c' ts = Some m'" "name m' = name m"
          "channel_info m' = channel_info m" "link m' = link m" by auto
        then show ?thesis using Some Cons ins fj True il by simp
      next
        case False
        then show ?thesis using Some Cons ins fj atj jl by simp
      qed
    qed
  qed
qed

lemma mset_concat_update:
  "i < length cs \<Longrightarrow>
   mset (concat (map f (cs[i := c']))) + mset (f (cs ! i)) = mset (concat (map f cs)) + mset (f c')"
proof (induction cs arbitrary: i)
  case Nil
  then show ?case by simp
next
  case (Cons c cs)
  show ?case
  proof (cases i)
    case 0
    then show ?thesis by simp
  next
    case (Suc j)
    then have "j < length cs" using Cons.prems by simp
    from Cons.IH[OF this] show ?thesis using Suc by (simp add: ac_simps)
  qed
qed

lemma mset_tree_links_update_at:
  "node_at n q = Some m \<Longrightarrow>
   mset (tree_links (update_at q f n)) + mset (tree_links m) = mset (tree_links n) + mset (tree_links (f m))"
proof (induction q f n rule: update_at.induct)
  case (1 f n)
  then show ?case by (simp add: ac_simps)
next
  case (2 token path f nm ci l cs)
  then obtain i where i: "find_child token cs = Some i" and at: "node_at (cs ! i) path = Some m"
    by (auto split: option.splits)
  have il: "i < length cs" using i find_child_Some by blast
  let ?c' = "update_at path f (cs ! i)"
  have 1: "mset (tree_links ?c') + mset (tree_links m) = mset (tree_links (cs ! i)) + mset (tree_links (f m))"
    using "2.IH"[OF i at] .
  have 2: "mset (concat (map tree_links (cs[i := ?c']))) + mset (tree_links (cs ! i))
         = mset (concat (map tree_links cs)) + mset (tree_links ?c')"
    using mset_concat_update[OF il] .
  have "mset (concat (map tree_links (cs[i := ?c']))) + mset (tree_links m)
         = mset (concat (map tree_links cs)) + mset (tree_links (f m))"
  proof -
    have "mset (concat (map tree_links (cs[i := ?c']))) + mset (tree_links m) + mset (tree_links (cs ! i))
        = mset (concat (map tree_links cs)) + (mset (tree_links ?c') + mset (tree_links m))"
      using 2 by (simp add: ac_simps)
    also have "\<dots> = mset (concat (map tree_links cs)) + mset (tree_links (f m)) + mset (tree_links (cs ! i))"
      using 1 by (simp add: ac_simps)
    finally show ?thesis by simp
  qed
  then show ?case using i by (simp add: ac_simps)
qed


section \<open>What \<open>build_node\<close> writes\<close>

lemma memcpy_resize: "memcpy (resize st (length st + length iv)) (length st) iv = st @ iv"
  by (simp add: memcpy_def resize_def)

lemma build_node_unlinked:
  "build_node r (Node nm ci None cs) (ls, st) = build_children r cs (ls, st)"
  by (simp split: sum.splits)

lemma build_node_linked:
  "build_node r (Node nm ci (Some k) cs) (ls, st) =
     (case build_children r cs (ls(k := pre_link r ci (length st) (ls k)), st @ own_bytes ci) of
        Inl e \<Rightarrow> Inl e
      | Inr (ls4, st4) \<Rightarrow>
          if cs \<noteq> [] \<and> link (hd cs) = None then Inl NullDereference
          else Inr (ls4(k := post_link cs ls4 (ls4 k)), st4))"
  by (cases ci; cases cs)
     (auto simp: Let_def memcpy_resize pre_link_def post_link_def own_bytes_def
           split: sum.splits option.splits)

declare build_node.simps [simp del]

lemma build_induct [consumes 1, case_names unlinked linked nil cons]:
  assumes run: "build_node r n (ls, st) = Inr (ls', st')"
    and unl: "\<And>nm ci cs ls st ls' st'.
        build_children r cs (ls, st) = Inr (ls', st') \<Longrightarrow>
        Q cs ls st ls' st' \<Longrightarrow> P (Node nm ci None cs) ls st ls' st'"
    and lnk: "\<And>nm ci k cs ls st ls4 st'.
        build_children r cs (ls(k := pre_link r ci (length st) (ls k)), st @ own_bytes ci) = Inr (ls4, st') \<Longrightarrow>
        Q cs (ls(k := pre_link r ci (length st) (ls k))) (st @ own_bytes ci) ls4 st' \<Longrightarrow>
        cs = [] \<or> link (hd cs) \<noteq> None \<Longrightarrow>
        P (Node nm ci (Some k) cs) ls st (ls4(k := post_link cs ls4 (ls4 k))) st'"
    and nil: "\<And>ls st. Q [] ls st ls st"
    and cons: "\<And>c cs ls st ls1 st1 ls' st'.
        build_node r c (ls, st) = Inr (ls1, st1) \<Longrightarrow>
        build_children r cs (ls1, st1) = Inr (ls', st') \<Longrightarrow>
        P c ls st ls1 st1 \<Longrightarrow> Q cs ls1 st1 ls' st' \<Longrightarrow> Q (c # cs) ls st ls' st'"
  shows "P n ls st ls' st'"
proof -
  have chil: "\<forall>ls st ls' st'. build_children r ds (ls, st) = Inr (ls', st') \<longrightarrow> Q ds ls st ls' st'"
    if "\<And>c. c \<in> set ds \<Longrightarrow>
          \<forall>ls st ls' st'. build_node r c (ls, st) = Inr (ls', st') \<longrightarrow> P c ls st ls' st'" for ds
    using that
  proof (induction ds)
    case Nil
    then show ?case using nil by simp
  next
    case (Cons c ds)
    show ?case
    proof (intro allI impI)
      fix ls st ls' st'
      assume b: "build_children r (c # ds) (ls, st) = Inr (ls', st')"
      then obtain ls1 st1 where 1: "build_node r c (ls, st) = Inr (ls1, st1)"
        and 2: "build_children r ds (ls1, st1) = Inr (ls', st')"
        by (auto split: sum.splits)
      have "P c ls st ls1 st1" using Cons.prems[of c] 1 by simp
      moreover have "Q ds ls1 st1 ls' st'" using Cons.IH Cons.prems 2 by simp
      ultimately show "Q (c # ds) ls st ls' st'" using cons[OF 1 2] by blast
    qed
  qed
  have "\<forall>ls st ls' st'. build_node r n (ls, st) = Inr (ls', st') \<longrightarrow> P n ls st ls' st'"
  proof (induction n)
    case (Node nm ci l cs)
    have q: "\<forall>ls st ls' st'. build_children r cs (ls, st) = Inr (ls', st') \<longrightarrow> Q cs ls st ls' st'"
      using chil[of cs] Node.IH by blast
    show ?case
    proof (intro allI impI)
      fix ls st ls' st'
      assume b: "build_node r (Node nm ci l cs) (ls, st) = Inr (ls', st')"
      show "P (Node nm ci l cs) ls st ls' st'"
      proof (cases l)
        case None
        then show ?thesis using b q unl by (simp add: build_node_unlinked)
      next
        case (Some k)
        then show ?thesis using b q lnk[of cs ls k ci st _ st' nm]
          by (auto simp: build_node_linked split: sum.splits if_splits)
      qed
    qed
  qed
  then show ?thesis using run by blast
qed


lemma build_storage:
  assumes "build_node r n (ls, st) = Inr (ls', st')"
  shows "st' = st @ built_bytes n"
  using assms
proof (induction rule: build_induct[where
      Q = "\<lambda>cs ls st ls' st'. st' = st @ concat (map built_bytes cs)"])
  case (linked nm ci k cs ls st ls4 st')
  then show ?case by (simp add: own_bytes_def split: option.splits)
qed simp_all

lemma build_children_storage:
  "build_children r cs (ls, st) = Inr (ls', st') \<Longrightarrow> st' = st @ concat (map built_bytes cs)"
proof (induction cs arbitrary: ls st)
  case Nil
  then show ?case by simp
next
  case (Cons c cs)
  then obtain ls1 st1 where 1: "build_node r c (ls, st) = Inr (ls1, st1)"
    and 2: "build_children r cs (ls1, st1) = Inr (ls', st')"
    by (auto split: sum.splits)
  show ?case using build_storage[OF 1] Cons.IH[OF 2] by simp
qed

lemma build_frame:
  assumes "build_node r n (ls, st) = Inr (ls', st')"
  shows "\<forall>k. k \<notin> set (tree_links n) \<longrightarrow> ls' k = ls k"
  using assms
proof (induction rule: build_induct[where
      Q = "\<lambda>cs ls st ls' st'. \<forall>k. k \<notin> set (concat (map tree_links cs)) \<longrightarrow> ls' k = ls k"])
qed auto

lemma build_children_frame:
  "build_children r cs (ls, st) = Inr (ls', st') \<Longrightarrow>
   k \<notin> set (concat (map tree_links cs)) \<Longrightarrow> ls' k = ls k"
proof (induction cs arbitrary: ls st)
  case Nil
  then show ?case by simp
next
  case (Cons c cs)
  then obtain ls1 st1 where 1: "build_node r c (ls, st) = Inr (ls1, st1)"
    and 2: "build_children r cs (ls1, st1) = Inr (ls', st')"
    by (auto split: sum.splits)
  show ?case using build_frame[OF 1] Cons.IH[OF 2] Cons.prems(2) by simp
qed

lemma build_lock_unchanged:
  assumes "build_node r n (ls, st) = Inr (ls', st')"
  shows "\<forall>k. lock (ls' k) = lock (ls k)"
  using assms
proof (induction rule: build_induct[where
      Q = "\<lambda>cs ls st ls' st'. \<forall>k. lock (ls' k) = lock (ls k)"])
qed (auto simp: pre_link_def post_link_def split: option.splits)



lemma laid_out_append:
  "laid_out ls r off (xs @ ys) =
     (laid_out ls r off xs \<and> laid_out ls r (off + sum_list (map snd xs)) ys)"
  by (induction xs arbitrary: off) (auto simp: add.assoc)

lemma laid_out_cong:
  "\<forall>k \<in> fst ` set xs. ls' k = ls k \<Longrightarrow> laid_out ls' r off xs = laid_out ls r off xs"
  by (induction xs arbitrary: off) auto

lemma chan_slots_links: "fst ` set (chan_slots n) \<subseteq> set (tree_links n)"
proof (induction n)
  case (Node nm ci l cs)
  then show ?case by (fastforce split: option.splits)
qed

lemma chan_slots_links_list:
  "fst ` set (concat (map chan_slots cs)) \<subseteq> set (concat (map tree_links cs))"
  using chan_slots_links by fastforce

lemma chan_slots_size: "sum_list (map snd (chan_slots n)) = length (built_bytes n)"
proof (induction n)
  case (Node nm ci l cs)
  have "sum_list (map snd (concat (map chan_slots cs))) = length (concat (map built_bytes cs))"
    using Node.IH by (induction cs) auto
  then show ?case by (auto split: option.splits)
qed

lemma build_laid_out:
  assumes "build_node r n (ls, st) = Inr (ls', st')"
  shows "distinct (tree_links n) \<longrightarrow> laid_out ls' r (length st) (chan_slots n)"
  using assms
proof (induction rule: build_induct[where
      Q = "\<lambda>cs ls st ls' st'. distinct (concat (map tree_links cs)) \<longrightarrow>
             laid_out ls' r (length st) (concat (map chan_slots cs))"])
  case (unlinked nm ci cs ls st ls' st')
  then show ?case by simp
next
  case (linked nm ci k cs ls st ls4 st')
  show ?case
  proof
    assume d: "distinct (tree_links (Node nm ci (Some k) cs))"
    then have k: "k \<notin> set (concat (map tree_links cs))"
      and dc: "distinct (concat (map tree_links cs))" by auto
    let ?ls0 = "ls(k := pre_link r ci (length st) (ls k))"
    define ls5 where "ls5 = ls4(k := post_link cs ls4 (ls4 k))"
    have lo: "laid_out ls4 r (length (st @ own_bytes ci)) (concat (map chan_slots cs))"
      using linked dc by simp
    have "\<forall>k' \<in> fst ` set (concat (map chan_slots cs)). ls5 k' = ls4 k'"
      using k chan_slots_links_list[of cs] by (auto simp: ls5_def)
    from laid_out_cong[OF this]
    have lo': "laid_out ls5 r (length st + length (own_bytes ci)) (concat (map chan_slots cs))"
      using lo by simp
    have k4: "ls4 k = ?ls0 k" using build_children_frame[OF linked(1) k] .
    have "laid_out ls5 r (length st) (chan_slots (Node nm ci (Some k) cs))"
    proof (cases ci)
      case None
      then show ?thesis using lo' by (simp add: own_bytes_def)
    next
      case (Some iv)
      then show ?thesis using lo' k4
        by (simp add: own_bytes_def pre_link_def post_link_def ls5_def)
    qed
    then show "laid_out (ls4(k := post_link cs ls4 (ls4 k))) r (length st)
        (chan_slots (Node nm ci (Some k) cs))"
      by (simp add: ls5_def)
  qed
next
  case (nil ls st)
  then show ?case by simp
next
  case (cons c cs ls st ls1 st1 ls' st')
  show ?case
  proof
    assume d: "distinct (concat (map tree_links (c # cs)))"
    then have dc: "distinct (tree_links c)" and dcs: "distinct (concat (map tree_links cs))"
      and dj: "set (tree_links c) \<inter> set (concat (map tree_links cs)) = {}" by auto
    have a: "laid_out ls1 r (length st) (chan_slots c)" using cons dc by simp
    have "\<forall>k \<in> fst ` set (chan_slots c). ls' k = ls1 k"
      using build_children_frame[OF cons(2)] dj chan_slots_links[of c] by blast
    from laid_out_cong[OF this]
    have a': "laid_out ls' r (length st) (chan_slots c)" using a by simp
    have b: "laid_out ls' r (length st1) (concat (map chan_slots cs))" using cons dcs by simp
    have "length st1 = length st + sum_list (map snd (chan_slots c))"
      using build_storage[OF cons(1)] by (simp add: chan_slots_size)
    then show "laid_out ls' r (length st) (concat (map chan_slots (c # cs)))"
      using a' b by (simp add: laid_out_append)
  qed
qed

lemma build_children_laid_out:
  "build_children r cs (ls, st) = Inr (ls', st') \<Longrightarrow> distinct (concat (map tree_links cs)) \<Longrightarrow>
   laid_out ls' r (length st) (concat (map chan_slots cs))"
proof (induction cs arbitrary: ls st)
  case Nil
  then show ?case by simp
next
  case (Cons c cs)
  then obtain ls1 st1 where 1: "build_node r c (ls, st) = Inr (ls1, st1)"
    and 2: "build_children r cs (ls1, st1) = Inr (ls', st')"
    by (auto split: sum.splits)
  from Cons.prems(2) have dc: "distinct (tree_links c)" and dcs: "distinct (concat (map tree_links cs))"
    and dj: "set (tree_links c) \<inter> set (concat (map tree_links cs)) = {}" by auto
  have a: "laid_out ls1 r (length st) (chan_slots c)" using build_laid_out[OF 1] dc by simp
  have "\<forall>k \<in> fst ` set (chan_slots c). ls' k = ls1 k"
    using build_children_frame[OF 2] dj chan_slots_links[of c] by blast
  from laid_out_cong[OF this]
  have a': "laid_out ls' r (length st) (chan_slots c)" using a by simp
  have b: "laid_out ls' r (length st1) (concat (map chan_slots cs))" using Cons.IH[OF 2 dcs] .
  have "length st1 = length st + sum_list (map snd (chan_slots c))"
    using build_storage[OF 1] by (simp add: chan_slots_size)
  then show ?case using a' b by (simp add: laid_out_append)
qed

text \<open>The fields of the link at the root of a built subtree.\<close>

lemma build_root_link:
  assumes b: "build_node r (Node nm ci (Some k) cs) (ls, st) = Inr (ls', st')"
    and d: "distinct (tree_links (Node nm ci (Some k) cs))"
  shows "river (ls' k) = Some r"
    and "rivulet_size (ls' k) = Some (sum_children cs)"
    and "cs = [] \<Longrightarrow> rivulet_offset (ls' k) = Some 0"
    and "cs \<noteq> [] \<Longrightarrow> \<exists>k0. link (hd cs) = Some k0 \<and> rivulet_offset (ls' k) = channel_offset (ls' k0)"
    and "ci \<noteq> None \<Longrightarrow> channel_offset (ls' k) = Some (length st)"
    and "laid_out ls' r (length st + length (own_bytes ci)) (concat (map chan_slots cs))"
    and "st' = st @ own_bytes ci @ concat (map built_bytes cs)"
proof -
  from d have k: "k \<notin> set (concat (map tree_links cs))"
    and dc: "distinct (concat (map tree_links cs))" by auto
  let ?ls0 = "ls(k := pre_link r ci (length st) (ls k))"
  from b obtain ls4 where c: "build_children r cs (?ls0, st @ own_bytes ci) = Inr (ls4, st')"
    and l': "ls' = ls4(k := post_link cs ls4 (ls4 k))"
    and hd: "cs = [] \<or> link (hd cs) \<noteq> None"
    by (auto simp: build_node_linked split: sum.splits if_splits)
  have k4: "ls4 k = ?ls0 k" using build_children_frame[OF c k] .
  show "river (ls' k) = Some r" using l' k4
    by (simp add: post_link_def pre_link_def split: option.splits)
  show "rivulet_size (ls' k) = Some (sum_children cs)" using l' by (simp add: post_link_def)
  show "cs = [] \<Longrightarrow> rivulet_offset (ls' k) = Some 0" using l' by (simp add: post_link_def)
  show "cs \<noteq> [] \<Longrightarrow> \<exists>k0. link (hd cs) = Some k0 \<and> rivulet_offset (ls' k) = channel_offset (ls' k0)"
  proof -
    assume ne: "cs \<noteq> []"
    then obtain c0 cs' where cs: "cs = c0 # cs'" by (cases cs) auto
    with hd obtain k0 where k0: "link c0 = Some k0" by auto
    have "k0 \<in> set (tree_links c0)" using k0 by (cases c0) auto
    then have "k0 \<noteq> k" using k cs by auto
    then show ?thesis using l' cs k0 by (simp add: post_link_def)
  qed
  show "ci \<noteq> None \<Longrightarrow> channel_offset (ls' k) = Some (length st)" using l' k4
    by (auto simp: post_link_def pre_link_def)
  have lo: "laid_out ls4 r (length (st @ own_bytes ci)) (concat (map chan_slots cs))"
    using build_children_laid_out[OF c dc] .
  have "\<forall>k' \<in> fst ` set (concat (map chan_slots cs)). ls' k' = ls4 k'"
    using k chan_slots_links_list[of cs] l' by auto
  from laid_out_cong[OF this]
  show "laid_out ls' r (length st + length (own_bytes ci)) (concat (map chan_slots cs))"
    using lo by simp
  show "st' = st @ own_bytes ci @ concat (map built_bytes cs)"
    using build_children_storage[OF c] by simp
qed



lemma nth_links_subset:
  "i < length cs \<Longrightarrow> set (tree_links (cs ! i)) \<subseteq> set (concat (map tree_links cs))"
proof -
  assume "i < length cs"
  then have "cs ! i \<in> set cs" by simp
  then show ?thesis by auto
qed

lemma distinct_concat_nth:
  "distinct (concat (map f cs)) \<Longrightarrow> i < length cs \<Longrightarrow> distinct (f (cs ! i))"
proof (induction cs arbitrary: i)
  case Nil
  then show ?case by simp
next
  case (Cons c cs)
  then show ?case by (cases i) auto
qed

lemma node_at_links_subset:
  "node_at n p = Some m \<Longrightarrow> set (tree_links m) \<subseteq> set (tree_links n)"
proof (induction n p rule: node_at.induct)
  case (1 n)
  then show ?case by simp
next
  case (2 nm ci l cs token path)
  then obtain i where i: "find_child token cs = Some i" and at: "node_at (cs ! i) path = Some m"
    by (auto split: option.splits)
  have "i < length cs" using i find_child_Some by blast
  then show ?case using "2.IH"[OF i at] nth_links_subset[of i cs] by auto
qed

lemma node_at_distinct:
  "node_at n p = Some m \<Longrightarrow> distinct (tree_links n) \<Longrightarrow> distinct (tree_links m)"
proof (induction n p rule: node_at.induct)
  case (1 n)
  then show ?case by simp
next
  case (2 nm ci l cs token path)
  then obtain i where i: "find_child token cs = Some i" and at: "node_at (cs ! i) path = Some m"
    by (auto split: option.splits)
  have "i < length cs" using i find_child_Some by blast
  then have "distinct (tree_links (cs ! i))"
    using "2.prems"(2) distinct_concat_nth[of tree_links cs i] by simp
  then show ?case using "2.IH"[OF i at] by simp
qed

lemma node_at_append:
  "node_at n (p @ q) = (case node_at n p of None \<Rightarrow> None | Some m \<Rightarrow> node_at m q)"
  by (induction n p rule: node_at.induct) (auto split: option.splits)

lemma build_children_nth:
  "build_children r cs (ls, st) = Inr (ls', st') \<Longrightarrow> i < length cs \<Longrightarrow>
   distinct (concat (map tree_links cs)) \<Longrightarrow>
   \<exists>ls_a st_a ls_b st_b post.
     build_node r (cs ! i) (ls_a, st_a) = Inr (ls_b, st_b) \<and> st' = st_b @ post \<and>
     (\<forall>k \<in> set (tree_links (cs ! i)). ls' k = ls_b k)"
proof (induction cs arbitrary: i ls st)
  case Nil
  then show ?case by simp
next
  case (Cons c cs)
  then obtain ls1 st1 where 1: "build_node r c (ls, st) = Inr (ls1, st1)"
    and 2: "build_children r cs (ls1, st1) = Inr (ls', st')"
    by (auto split: sum.splits)
  from Cons.prems(3) have dcs: "distinct (concat (map tree_links cs))"
    and dj: "set (tree_links c) \<inter> set (concat (map tree_links cs)) = {}" by auto
  show ?case
  proof (cases i)
    case 0
    have "st' = st1 @ concat (map built_bytes cs)" using build_children_storage[OF 2] .
    moreover have "\<forall>k \<in> set (tree_links c). ls' k = ls1 k"
      using build_children_frame[OF 2] dj by blast
    ultimately have "build_node r ((c # cs) ! i) (ls, st) = Inr (ls1, st1) \<and>
        st' = st1 @ concat (map built_bytes cs) \<and>
        (\<forall>k \<in> set (tree_links ((c # cs) ! i)). ls' k = ls1 k)"
      using 1 0 by simp
    then show ?thesis by blast
  next
    case (Suc j)
    then have "j < length cs" using Cons.prems(2) by simp
    from Cons.IH[OF 2 this dcs] show ?thesis using Suc by simp
  qed
qed

text \<open>The build of a whole tree contains the build of each of its subtrees; what that
  wrote to the subtree's links and to storage is still there at the end.\<close>

lemma build_node_at:
  "build_node r n (ls, st) = Inr (ls', st') \<Longrightarrow> distinct (tree_links n) \<Longrightarrow>
   node_at n p = Some m \<Longrightarrow>
   \<exists>ls_a st_a ls_b st_b post.
     build_node r m (ls_a, st_a) = Inr (ls_b, st_b) \<and> st' = st_b @ post \<and>
     (\<forall>k \<in> set (tree_links m). ls' k = ls_b k)"
proof (induction n p arbitrary: ls st ls' st' rule: node_at.induct)
  case (1 n)
  then have "build_node r m (ls, st) = Inr (ls', st') \<and> st' = st' @ [] \<and>
     (\<forall>k \<in> set (tree_links m). ls' k = ls' k)" by simp
  then show ?case by blast
next
  case (2 nm ci l cs token path)
  from "2.prems"(3) obtain i where i: "find_child token cs = Some i"
    and at: "node_at (cs ! i) path = Some m"
    by (auto split: option.splits)
  have il: "i < length cs" using i find_child_Some by blast
  from "2.prems"(2) have dcs: "distinct (concat (map tree_links cs))" by (cases l) auto
  have sub: "set (tree_links m) \<subseteq> set (tree_links (cs ! i))" using node_at_links_subset[OF at] .
  have subc: "set (tree_links (cs ! i)) \<subseteq> set (concat (map tree_links cs))"
    using nth_links_subset[OF il] .
  have "\<exists>ls0 st0 ls4. build_children r cs (ls0, st0) = Inr (ls4, st') \<and>
          (\<forall>k \<in> set (concat (map tree_links cs)). ls' k = ls4 k)"
  proof (cases l)
    case None
    then show ?thesis using "2.prems"(1) by (auto simp: build_node_unlinked)
  next
    case (Some k)
    then have "k \<notin> set (concat (map tree_links cs))" using "2.prems"(2) by auto
    then show ?thesis using "2.prems"(1) Some
      by (fastforce simp: build_node_linked split: sum.splits if_splits)
  qed
  then obtain ls0 st0 ls4 where c: "build_children r cs (ls0, st0) = Inr (ls4, st')"
    and e: "\<forall>k \<in> set (concat (map tree_links cs)). ls' k = ls4 k" by blast
  from build_children_nth[OF c il dcs] obtain ls_a st_a ls_b st_b post where
    ch: "build_node r (cs ! i) (ls_a, st_a) = Inr (ls_b, st_b)" and st: "st' = st_b @ post"
    and eq: "\<forall>k \<in> set (tree_links (cs ! i)). ls4 k = ls_b k" by blast
  have di: "distinct (tree_links (cs ! i))" using distinct_concat_nth[OF dcs il] .
  from "2.IH"[OF i ch di at] obtain ls_a' st_a' ls_b' st_b' post' where
    m: "build_node r m (ls_a', st_a') = Inr (ls_b', st_b')" and st2: "st_b = st_b' @ post'"
    and eq2: "\<forall>k \<in> set (tree_links m). ls_b k = ls_b' k" by blast
  have "\<forall>k \<in> set (tree_links m). ls' k = ls_b' k"
  proof
    fix k assume k: "k \<in> set (tree_links m)"
    then have ki: "k \<in> set (tree_links (cs ! i))" using sub by blast
    then have "k \<in> set (concat (map tree_links cs))" using subc by blast
    then have "ls' k = ls4 k" using e by blast
    also have "\<dots> = ls_b k" using eq ki by blast
    also have "\<dots> = ls_b' k" using eq2 k by blast
    finally show "ls' k = ls_b' k" .
  qed
  moreover have "st' = st_b' @ (post' @ post)" using st st2 by simp
  ultimately show ?case using m by blast
qed

lemma for_each_sum_size:
  "for_each_node sum_size n acc = Inr (0, acc + length (all_bytes n))"
proof (induction n arbitrary: acc)
  case (Node nm ci l cs)
  have "for_each_children sum_size ds a = Inr (0, a + length (concat (map all_bytes ds)))"
    if "set ds \<subseteq> set cs" for ds a
    using that by (induction ds arbitrary: a) (auto simp: Node.IH)
  from this[of cs] have "for_each_children sum_size cs a = Inr (0, a + length (concat (map all_bytes cs)))" for a
    by simp
  moreover have "sum_size (Node nm ci l cs) acc = Inr (0, acc + length (case ci of None \<Rightarrow> [] | Some iv \<Rightarrow> iv))"
    by (simp add: sum_size_def split: option.splits)
  ultimately show ?case by simp
qed

lemma sum_children_eq: "sum_children cs = length (concat (map all_bytes cs))"
proof -
  have "fold (\<lambda>child acc. case for_each_node sum_size child acc of Inr (ret, a) \<Rightarrow> a | Inl e \<Rightarrow> acc) cs a
        = a + length (concat (map all_bytes cs))" for a
    by (induction cs arbitrary: a) (auto simp: for_each_sum_size)
  then show ?thesis by (simp add: sum_children_def)
qed

lemma channels_linked_bytes: "channels_linked n \<Longrightarrow> all_bytes n = built_bytes n"
proof (induction n)
  case (Node nm ci l cs)
  then have "\<forall>c \<in> set cs. all_bytes c = built_bytes c" by (auto simp: list_all_iff)
  then have "map all_bytes cs = map built_bytes cs" by simp
  then have "concat (map all_bytes cs) = concat (map built_bytes cs)" by (rule arg_cong)
  then show ?case using Node.prems by (auto split: option.splits)
qed

lemma channels_linked_bytes_list:
  "list_all channels_linked cs \<Longrightarrow> concat (map all_bytes cs) = concat (map built_bytes cs)"
  by (induction cs) (auto simp: channels_linked_bytes)


section \<open>Handle operations on linked handles\<close>


lemma links_acquire [simp]: "links (acquire lk s) = links s"
  and rivers_acquire [simp]: "rivers (acquire lk s) = rivers s"
  and tree_acquire [simp]: "tree (acquire lk s) = tree s"
  and next_link_acquire [simp]: "next_link (acquire lk s) = next_link s"
  and next_river_acquire [simp]: "next_river (acquire lk s) = next_river s"
  by (simp_all add: acquire_def split: option.splits)

lemma links_release [simp]: "links (release lk s) = links s"
  and rivers_release [simp]: "rivers (release lk s) = rivers s"
  and tree_release [simp]: "tree (release lk s) = tree s"
  and next_link_release [simp]: "next_link (release lk s) = next_link s"
  and next_river_release [simp]: "next_river (release lk s) = next_river s"
  by (simp_all add: release_def split: option.splits)

lemma memcpy_whole: "length src = length dest \<Longrightarrow> memcpy dest 0 src = src"
  by (simp add: memcpy_def)

lemma memcpy_prefix: "length src \<le> length dest \<Longrightarrow> memcpy dest 0 src = src @ drop (length src) dest"
  by (simp add: memcpy_def)

lemma length_memcpy: "off + length src \<le> length dest \<Longrightarrow> length (memcpy dest off src) = length dest"
  by (simp add: memcpy_def)

lemma memcpy_read_back:
  "off + length src \<le> length dest \<Longrightarrow> take (length src) (drop off (memcpy dest off src)) = src"
  by (simp add: memcpy_def)

text \<open>What the handle operations do on a linked handle whose region lies inside the
  river.\<close>

lemma Channel_get_linked:
  assumes "river (links s k) = Some r" and "channel_offset (links s k) = Some off"
    and "off + n \<le> length (rivers s r)"
  shows "Channel_get (Channel (Some k) n) s =
           Inr (take n (drop off (rivers s r)),
                release (lock (links s k)) (acquire (lock (links s k)) s))"
  using assms
  by (simp add: Channel_get_def serialize_def linked_def load_def Let_def memcpy_whole)

lemma Channel_set_linked:
  assumes "river (links s k) = Some r" and "channel_offset (links s k) = Some off"
    and "off + n \<le> length (rivers s r)" and "length val = n"
  shows "Channel_set (Channel (Some k) n) val s =
           Inr (release (lock (links s k))
                 ((acquire (lock (links s k)) s)
                    \<lparr>rivers := (rivers s)(r := memcpy (rivers s r) off val)\<rparr>))"
  using assms
  by (simp add: Channel_set_def deserialize_def linked_def store_def Let_def)

lemma Rivulet_read_linked:
  assumes "river (links s k) = Some r" and "rivulet_offset (links s k) = Some off"
    and "rivulet_size (links s k) = Some n"
    and "off + n \<le> length (rivers s r)" and "n \<le> length buf"
  shows "Rivulet_read (Rivulet (Some k)) (Some buf) s =
           Inr (Some (take n (drop off (rivers s r)) @ drop n buf),
                release (lock (links s k)) (acquire (lock (links s k)) s))"
  using assms
  by (simp add: Rivulet_read_def linked_def load_def Let_def memcpy_prefix)

lemma Rivulet_write_linked:
  assumes "river (links s k) = Some r" and "rivulet_offset (links s k) = Some off"
    and "rivulet_size (links s k) = Some n"
    and "off + n \<le> length (rivers s r)" and "n \<le> length buf"
  shows "Rivulet_write (Rivulet (Some k)) (Some buf) s =
           Inr (release (lock (links s k))
                 ((acquire (lock (links s k)) s)
                    \<lparr>rivers := (rivers s)(r := memcpy (rivers s r) off (take n buf))\<rparr>))"
  using assms
  by (simp add: Rivulet_write_def linked_def store_def Let_def)

lemma Rivulet_size_linked:
  assumes "river (links s k) = Some r" and "rivulet_size (links s k) = Some n"
  shows "Rivulet_size (Rivulet (Some k)) s = Inr n"
  using assms by (simp add: Rivulet_size_def linked_def)

text \<open>The result of a successful \<open>build()\<close>, in terms of \<open>build_node\<close>.\<close>

lemma Builder_build_success:
  assumes "Builder_build b s = Inr (code, ro, s')" and "code = 0"
  shows "\<exists>ls st. build_node (next_river s) (tree s) (links s, []) = Inr (ls, st) \<and>
           ro = Some (next_river s) \<and>
           s' = s\<lparr>rivers := (rivers s)(next_river s := st), next_river := Suc (next_river s),
                  links := ls, tree := remove_link (tree s)\<rparr>"
  using assms
  by (auto simp: Builder_build_def new_River_def split: if_splits sum.splits)

lemma build_channel_value:
  assumes d: "distinct (tree_links (tree s))"
    and at: "node_at (tree s) p = Some m" and lk: "link m = Some k"
    and ci: "channel_info m = Some v"
    and b: "Builder_build bl s = Inr (0, ro, s')"
  shows "\<exists>r off. ro = Some r \<and> river (links s' k) = Some r \<and>
           channel_offset (links s' k) = Some off \<and>
           off + length v \<le> length (rivers s' r) \<and>
           take (length v) (drop off (rivers s' r)) = v"
proof -
  let ?r = "next_river s"
  from Builder_build_success[OF b] obtain ls st where
    bn: "build_node ?r (tree s) (links s, []) = Inr (ls, st)" and ro: "ro = Some ?r"
    and s': "s' = s\<lparr>rivers := (rivers s)(?r := st), next_river := Suc ?r,
                  links := ls, tree := remove_link (tree s)\<rparr>" by auto
  from build_node_at[OF bn d at] obtain ls_a st_a ls_b st_b post where
    m: "build_node ?r m (ls_a, st_a) = Inr (ls_b, st_b)" and st: "st = st_b @ post"
    and eq: "\<forall>k \<in> set (tree_links m). ls k = ls_b k" by blast
  obtain nm cs where mm: "m = Node nm (Some v) (Some k) cs" using lk ci by (cases m) auto
  have dm: "distinct (tree_links (Node nm (Some v) (Some k) cs))"
    using node_at_distinct[OF at d] mm by simp
  have km: "k \<in> set (tree_links m)" using mm by simp
  have r1: "river (ls_b k) = Some ?r"
    and o1: "channel_offset (ls_b k) = Some (length st_a)"
    and s1: "st_b = st_a @ own_bytes (Some v) @ concat (map built_bytes cs)"
    using build_root_link[OF m[unfolded mm] dm] by simp_all
  have lsk: "ls k = ls_b k" using eq km by blast
  have "st = st_a @ v @ (concat (map built_bytes cs) @ post)"
    using st s1 by (simp add: own_bytes_def)
  then have "length st_a + length v \<le> length st" and "take (length v) (drop (length st_a) st) = v"
    by simp_all
  then show ?thesis using ro s' lsk r1 o1 by simp
qed


section \<open>Declarations as steps\<close>

lemma step_ok_refl: "step_ok s s"
  by (simp add: step_ok_def)

lemma step_ok_same_tree_links:
  "tree s' = tree s \<Longrightarrow> links s' = links s \<Longrightarrow> next_link s' = next_link s \<Longrightarrow>
   next_river s' = next_river s \<Longrightarrow> step_ok s s'"
  by (simp add: step_ok_def well_formed_def)

lemma step_ok_trans:
  assumes a: "step_ok s s'" and b: "step_ok s' s''"
  shows "step_ok s s''"
proof -
  have n: "next_link s \<le> next_link s'' \<and> next_river s'' = next_river s"
    using a b by (simp add: step_ok_def)
  have f: "links s'' k = links s k" if "k < next_link s" "k \<notin> set (tree_links (tree s))" for k
  proof -
    have 1: "links s' k = links s k" using a that by (simp add: step_ok_def)
    have "k < next_link s'" using a that by (simp add: step_ok_def)
    moreover have "k \<notin> set (tree_links (tree s'))" using a that by (auto simp: step_ok_def)
    ultimately have "links s'' k = links s' k" using b by (simp add: step_ok_def)
    then show ?thesis using 1 by simp
  qed
  have t: "set (tree_links (tree s'')) \<subseteq> set (tree_links (tree s)) \<union> {k. next_link s \<le> k}"
  proof
    fix k assume "k \<in> set (tree_links (tree s''))"
    then have "k \<in> set (tree_links (tree s')) \<or> next_link s' \<le> k" using b by (auto simp: step_ok_def)
    then show "k \<in> set (tree_links (tree s)) \<union> {k. next_link s \<le> k}"
      using a by (auto simp: step_ok_def)
  qed
  have w: "well_formed s \<longrightarrow> well_formed s''" using a b by (simp add: step_ok_def)
  have i: "\<exists>m'. node_at (tree s'') p = Some m' \<and> channel_info m' = Some v \<and> link m' = Some k"
    if "node_at (tree s) p = Some m" "channel_info m = Some v" "link m = Some k" for p m v k
  proof -
    from a that obtain m1 where "node_at (tree s') p = Some m1" "channel_info m1 = Some v" "link m1 = Some k"
      unfolding step_ok_def by blast
    then show ?thesis using b unfolding step_ok_def by blast
  qed
  show ?thesis unfolding step_ok_def using n f t w i by blast
qed



lemma tokenize_ok_nonempty: "tokenize_path path = (0, tokens) \<Longrightarrow> tokens \<noteq> []"
  by (auto simp: tokenize_path_def Let_def split: if_splits)

lemma tree_links_remove_link: "tree_links (remove_link n) = []"
proof (induction n)
  case (Node nm ci l cs)
  then have "concat (map tree_links (map remove_link cs)) = []" by (induction cs) auto
  then show ?case by simp
qed

lemma tree_links_node:
  "tree_links n = (case link n of None \<Rightarrow> [] | Some k \<Rightarrow> [k]) @ concat (map tree_links (children n))"
  by (cases n) simp

text \<open>The step that gives the node at \<open>P\<close> its link: shared by \<open>channel\<close> and \<open>rivulet\<close>.\<close>

lemma set_link_step:
  assumes at: "node_at t1 P = Some n0"
    and tl: "tree_links t1 = tree_links (tree s)"
    and inf: "\<And>p m. node_at (tree s) p = Some m \<Longrightarrow>
         \<exists>m'. node_at t1 p = Some m' \<and> name m' = name m \<and>
              channel_info m' = channel_info m \<and> link m' = link m"
    and k: "k = (case link n0 of Some k' \<Rightarrow> k' | None \<Rightarrow> next_link s)"
    and fn: "name (f n0) = name n0" and fc: "children (f n0) = children n0"
    and fl: "link (f n0) = Some k"
    and fi: "channel_info n0 \<noteq> None \<Longrightarrow> channel_info (f n0) = channel_info n0"
    and tr: "tree s1 = update_at P f t1"
    and nl: "next_link s1 = (if link n0 = None then Suc (next_link s) else next_link s)"
    and ls: "links s1 = (if link n0 = None then (links s)(next_link s := new_Link) else links s)"
    and nr: "next_river s1 = next_river s"
  shows "step_ok s s1"
proof -
  have ms: "mset (tree_links (tree s1)) + mset (tree_links n0)
          = mset (tree_links (tree s)) + mset (tree_links (f n0))"
    using mset_tree_links_update_at[OF at, of f] tr tl by simp
  have tf: "tree_links (f n0) = k # concat (map tree_links (children n0))"
    using tree_links_node[of "f n0"] fl fc by simp
  have A: "mset (tree_links (tree s1)) =
             (if link n0 = None then add_mset (next_link s) (mset (tree_links (tree s)))
              else mset (tree_links (tree s)))"
  proof (cases "link n0")
    case None
    then have "tree_links n0 = concat (map tree_links (children n0))"
      using tree_links_node[of n0] by simp
    then show ?thesis using ms tf k None by simp
  next
    case (Some k')
    then have "tree_links n0 = tree_links (f n0)"
      using tree_links_node[of n0] tf k by simp
    then show ?thesis using ms Some by simp
  qed
  have S: "set (tree_links (tree s1)) =
             (if link n0 = None then insert (next_link s) (set (tree_links (tree s)))
              else set (tree_links (tree s)))"
  proof (cases "link n0")
    case None
    then have "mset (tree_links (tree s1)) = mset (next_link s # tree_links (tree s))" using A by simp
    then have "set (tree_links (tree s1)) = set (next_link s # tree_links (tree s))" by (rule mset_eq_setD)
    then show ?thesis using None by simp
  next
    case (Some k')
    then have "mset (tree_links (tree s1)) = mset (tree_links (tree s))" using A by simp
    then have "set (tree_links (tree s1)) = set (tree_links (tree s))" by (rule mset_eq_setD)
    then show ?thesis using Some by simp
  qed
  have n: "next_link s \<le> next_link s1 \<and> next_river s1 = next_river s" using nl nr by simp
  have f: "\<forall>k'. k' < next_link s \<and> k' \<notin> set (tree_links (tree s)) \<longrightarrow> links s1 k' = links s k'"
    using ls by auto
  have t: "set (tree_links (tree s1)) \<subseteq> set (tree_links (tree s)) \<union> {k. next_link s \<le> k}"
    using S by auto
  have w: "well_formed s \<longrightarrow> well_formed s1"
  proof
    assume well_formed: "well_formed s"
    then have d: "distinct (tree_links (tree s))"
      and b: "\<forall>k' \<in> set (tree_links (tree s)). k' < next_link s"
      by (simp_all add: well_formed_def list_all_iff)
    have "distinct (tree_links (tree s1))"
    proof (cases "link n0 = None")
      case True
      then have "mset (tree_links (tree s1)) = mset (next_link s # tree_links (tree s))" using A by simp
      then have "distinct (tree_links (tree s1)) = distinct (next_link s # tree_links (tree s))"
        by (rule mset_eq_imp_distinct_iff)
      then show ?thesis using d b by auto
    next
      case False
      then have "mset (tree_links (tree s1)) = mset (tree_links (tree s))" using A by simp
      then have "distinct (tree_links (tree s1)) = distinct (tree_links (tree s))"
        by (rule mset_eq_imp_distinct_iff)
      then show ?thesis using d by simp
    qed
    moreover have "\<forall>k' \<in> set (tree_links (tree s1)). k' < next_link s1"
      using S b nl by auto
    ultimately show "well_formed s1" by (simp add: well_formed_def list_all_iff)
  qed
  have i: "\<exists>m'. node_at (tree s1) p = Some m' \<and> channel_info m' = Some v \<and> link m' = Some k'"
    if a1: "node_at (tree s) p = Some m" and a2: "channel_info m = Some v" and a3: "link m = Some k'"
    for p m v k'
  proof -
    from inf[OF a1] obtain m1 where m1: "node_at t1 p = Some m1"
      and c1: "channel_info m1 = Some v" and l1: "link m1 = Some k'" using a2 a3 by auto
    show ?thesis
    proof (cases "p = P")
      case True
      then have "m1 = n0" using at m1 by simp
      then have "k = k'" "channel_info (f n0) = Some v" using k l1 c1 fi by simp_all
      moreover have "node_at (tree s1) p = Some (f n0)"
        using node_at_update_at_same[where f = f, OF at fn] tr True by simp
      ultimately show ?thesis using fl by simp
    next
      case False
      from node_at_update_at_other[where f = f, OF at fn fc False m1] show ?thesis using tr c1 l1 by auto
    qed
  qed
  show ?thesis unfolding step_ok_def using n f t w i by blast
qed

lemma Builder_channel_step:
  assumes "Builder_channel b path v c s = Inr (code, h, s1)"
  shows "step_ok s s1"
proof -
  obtain ret tokens where tk: "tokenize_path path = (ret, tokens)" by fastforce
  show ?thesis
  proof (cases "ret = 0")
    case False
    then have "s1 = s" using assms tk by (simp add: Builder_channel_def)
    then show ?thesis by (simp add: step_ok_refl)
  next
    case True
    note r0 = True
    let ?P = "root b @ tokens"
    have ne: "tokens \<noteq> []" using tk r0 tokenize_ok_nonempty by simp
    obtain t1 r where ins: "insert_node (tree s) ?P True = (t1, r)" by fastforce
    obtain n0 where r: "r = Some n0" using insert_node_create_ret[of "tree s" ?P] ins by auto
    have at1: "node_at t1 ?P = Some n0" using insert_node_ret ins r by blast
    have tl1: "tree_links t1 = tree_links (tree s)"
      using tree_links_insert_node[of "tree s" ?P True] ins by simp
    have inf1: "\<exists>m'. node_at t1 p = Some m' \<and> name m' = name m \<and>
              channel_info m' = channel_info m \<and> link m' = link m"
      if "node_at (tree s) p = Some m" for p m
      using node_at_insert_node[OF that, of ?P True] ins by simp
    show ?thesis
    proof (cases "channel_info n0 = None")
      case False
      then have s1: "s1 = s\<lparr>tree := t1\<rparr>"
        using assms tk r0 ins r by (simp add: Builder_channel_def)
      have "\<exists>m'. node_at t1 p = Some m' \<and> channel_info m' = Some v' \<and> link m' = Some k"
        if "node_at (tree s) p = Some m" "channel_info m = Some v'" "link m = Some k" for p m v' k
        using inf1[OF that(1)] that by auto
      then show ?thesis unfolding step_ok_def using s1 tl1 by (auto simp: well_formed_def)
    next
      case True
      note None = True
      define k where "k = (case link n0 of Some k' \<Rightarrow> k' | None \<Rightarrow> next_link s)"
      define f where "f = (\<lambda>n. Node (last tokens) (Some v) (Some k) (children n))"
      have nm: "name n0 = last tokens" using node_at_name[OF at1] ne by simp
      have tr: "tree s1 = update_at ?P f t1"
        and nl: "next_link s1 = (if link n0 = None then Suc (next_link s) else next_link s)"
        and ls: "links s1 = (if link n0 = None then (links s)(next_link s := new_Link) else links s)"
        and nr: "next_river s1 = next_river s"
        using assms tk r0 ins r None
        by (auto simp: Builder_channel_def ensure_link_def k_def f_def split: option.splits)
      show ?thesis
        by (rule set_link_step[OF at1 tl1 inf1 k_def _ _ _ _ tr nl ls nr])
           (simp_all add: f_def nm None)
    qed
  qed
qed

lemma Builder_rivulet_step:
  assumes "Builder_rivulet b path h s = Inr (code, h', s1)"
  shows "step_ok s s1"
proof -
  obtain ret tokens where tk: "tokenize_path path = (ret, tokens)" by fastforce
  show ?thesis
  proof (cases "ret = 0")
    case False
    then have "s1 = s" using assms tk by (simp add: Builder_rivulet_def)
    then show ?thesis by (simp add: step_ok_refl)
  next
    case True
    let ?P = "root b @ tokens"
    have ins: "insert_node (tree s) ?P False = (tree s, node_at (tree s) ?P)"
      by (rule insert_node_lookup)
    show ?thesis
    proof (cases "node_at (tree s) ?P")
      case None
      then have "s1 = s" using assms tk True ins by (simp add: Builder_rivulet_def)
      then show ?thesis by (simp add: step_ok_refl)
    next
      case (Some n0)
      define k where "k = (case link n0 of Some k' \<Rightarrow> k' | None \<Rightarrow> next_link s)"
      define f where "f = (\<lambda>n. Node (name n) (channel_info n) (Some k) (children n))"
      have tr: "tree s1 = update_at ?P f (tree s)"
        and nl: "next_link s1 = (if link n0 = None then Suc (next_link s) else next_link s)"
        and ls: "links s1 = (if link n0 = None then (links s)(next_link s := new_Link) else links s)"
        and nr: "next_river s1 = next_river s"
        using assms tk True ins Some
        by (auto simp: Builder_rivulet_def ensure_link_def k_def f_def split: option.splits)
      show ?thesis
        by (rule set_link_step[OF Some refl _ k_def _ _ _ _ tr nl ls nr]) (simp_all add: f_def)
    qed
  qed
qed

lemma Builder_sub_step:
  assumes "Builder_sub b path b' s = Inr (code, b'', s1)"
  shows "step_ok s s1"
proof -
  obtain ret tokens where tk: "tokenize_path path = (ret, tokens)" by fastforce
  show ?thesis
  proof (cases "ret = 0")
    case False
    then have "s1 = s" using assms tk by (simp add: Builder_sub_def)
    then show ?thesis by (simp add: step_ok_refl)
  next
    case True
    let ?P = "root b @ tokens"
    obtain t1 r where ins: "insert_node (tree s) ?P True = (t1, r)" by fastforce
    have tl1: "tree_links t1 = tree_links (tree s)"
      using tree_links_insert_node[of "tree s" ?P True] ins by simp
    have s1: "s1 = s\<lparr>tree := t1\<rparr>" using assms tk True ins by (simp add: Builder_sub_def)
    have "\<exists>m'. node_at t1 p = Some m' \<and> channel_info m' = Some v' \<and> link m' = Some k"
      if "node_at (tree s) p = Some m" "channel_info m = Some v'" "link m = Some k" for p m v' k
      using node_at_insert_node[OF that(1), of ?P True] ins that by auto
    then show ?thesis unfolding step_ok_def using s1 tl1 by (auto simp: well_formed_def)
  qed
qed


section \<open>Locks\<close>

lemma node_list_induct:
  assumes node: "\<And>nm ci l cs. Q cs \<Longrightarrow> P (Node nm ci l cs)"
    and nil: "Q []" and cons: "\<And>c cs. P c \<Longrightarrow> Q cs \<Longrightarrow> Q (c # cs)"
  shows "P n" and "Q ds"
proof -
  have q: "Q es" if "\<And>c. c \<in> set es \<Longrightarrow> P c" for es
    using that by (induction es) (auto intro: nil cons)
  show p: "P n" for n
  proof (induction n)
    case (Node nm ci l cs)
    then show ?case using node q by blast
  qed
  show "Q ds" using q p by blast
qed

lemma check_for_locks_all_linked:
  "all_linked n \<Longrightarrow>
   for_each_node check_for_locks n ls = Inr (if lock_free ls n then 0 else - 1, ls)"
proof -
  have "\<forall>ls. all_linked n \<longrightarrow>
          for_each_node check_for_locks n ls = Inr (if lock_free ls n then 0 else - 1, ls)"
    and "\<forall>ls. list_all all_linked ds \<longrightarrow>
          for_each_children check_for_locks ds ls =
            Inr (if list_all (\<lambda>k. lock (ls k) = None) (concat (map tree_links ds)) then 0 else - 1, ls)"
    for ds
  proof (induction n and ds rule: node_list_induct)
    case (1 nm ci l cs)
    then show ?case by (auto simp: check_for_locks_def lock_free_def)
  next
    case 2
    then show ?case by simp
  next
    case (3 c cs)
    then show ?case by (auto simp: lock_free_def)
  qed
  then show "all_linked n \<Longrightarrow>
     for_each_node check_for_locks n ls = Inr (if lock_free ls n then 0 else - 1, ls)" by blast
qed

lemma check_for_locks_root_locked:
  "link n = Some k \<Longrightarrow> lock (ls k) \<noteq> None \<Longrightarrow> for_each_node check_for_locks n ls = Inr (- 1, ls)"
  by (cases n) (simp add: check_for_locks_def)

lemma check_for_locks_result:
  "for_each_node check_for_locks n ls = Inr (ret, ls') \<Longrightarrow>
   ls' = ls \<and> (ret = 0 \<longrightarrow> all_linked n \<and> lock_free ls n)"
proof -
  have "\<forall>ls ret ls'. for_each_node check_for_locks n ls = Inr (ret, ls') \<longrightarrow>
          ls' = ls \<and> (ret = 0 \<longrightarrow> all_linked n \<and> lock_free ls n)"
    and "\<forall>ls ret ls'. for_each_children check_for_locks ds ls = Inr (ret, ls') \<longrightarrow>
          ls' = ls \<and> (ret = 0 \<longrightarrow> list_all all_linked ds \<and>
             list_all (\<lambda>k. lock (ls k) = None) (concat (map tree_links ds)))"
    for ds
  proof (induction n and ds rule: node_list_induct)
    case (1 nm ci l cs)
    then show ?case
      by (auto simp: check_for_locks_def lock_free_def split: option.splits if_splits)
  next
    case 2
    then show ?case by simp
  next
    case (3 c cs)
    show ?case
    proof (intro allI impI)
      fix ls ret ls'
      assume a: "for_each_children check_for_locks (c # cs) ls = Inr (ret, ls')"
      then obtain r1 l1 where c: "for_each_node check_for_locks c ls = Inr (r1, l1)"
        by (auto split: sum.splits)
      then have l1: "l1 = ls" and c0: "r1 = 0 \<longrightarrow> all_linked c \<and> lock_free ls c" using 3 by blast+
      show "ls' = ls \<and> (ret = 0 \<longrightarrow> list_all all_linked (c # cs) \<and>
             list_all (\<lambda>k. lock (ls k) = None) (concat (map tree_links (c # cs))))"
      proof (cases "r1 = 0")
        case True
        then have "for_each_children check_for_locks cs ls = Inr (ret, ls')" using a c l1 by simp
        then show ?thesis using 3 c0 True by (auto simp: lock_free_def)
      next
        case False
        then show ?thesis using a c l1 by auto
      qed
    qed
  qed
  then show "for_each_node check_for_locks n ls = Inr (ret, ls') \<Longrightarrow>
     ls' = ls \<and> (ret = 0 \<longrightarrow> all_linked n \<and> lock_free ls n)" by blast
qed

lemma assign_lock_result:
  "for_each_node (assign_lock lk) n ls = Inr (ret, ls') \<Longrightarrow> ret = 0 \<and> ls' = with_lock lk n ls"
proof -
  have "\<forall>ls ret ls'. for_each_node (assign_lock lk) n ls = Inr (ret, ls') \<longrightarrow>
          ret = 0 \<and> ls' = with_lock lk n ls"
    and "\<forall>ls ret ls'. for_each_children (assign_lock lk) ds ls = Inr (ret, ls') \<longrightarrow>
          ret = 0 \<and> ls' = (\<lambda>k. if k \<in> set (concat (map tree_links ds)) then (ls k)\<lparr>lock := lk\<rparr> else ls k)"
    for ds
  proof (induction n and ds rule: node_list_induct)
    case (1 nm ci l cs)
    show ?case
    proof (intro allI impI)
      fix ls ret ls'
      assume a: "for_each_node (assign_lock lk) (Node nm ci l cs) ls = Inr (ret, ls')"
      then obtain k where l: "l = Some k" and nl: "lock (ls k) = None"
        by (auto simp: assign_lock_def split: option.splits if_splits)
      let ?ls0 = "ls(k := (ls k)\<lparr>lock := lk\<rparr>)"
      have "for_each_children (assign_lock lk) cs ?ls0 = Inr (ret, ls')"
        using a l nl by (simp add: assign_lock_def)
      then have "ret = 0" and
        "ls' = (\<lambda>k'. if k' \<in> set (concat (map tree_links cs)) then (?ls0 k')\<lparr>lock := lk\<rparr> else ?ls0 k')"
        using 1 by blast+
      then show "ret = 0 \<and> ls' = with_lock lk (Node nm ci l cs) ls"
        using l by (auto simp: with_lock_def fun_eq_iff)
    qed
  next
    case 2
    then show ?case by (simp add: fun_eq_iff)
  next
    case (3 c cs)
    show ?case
    proof (intro allI impI)
      fix ls ret ls'
      assume a: "for_each_children (assign_lock lk) (c # cs) ls = Inr (ret, ls')"
      then obtain r1 l1 where c: "for_each_node (assign_lock lk) c ls = Inr (r1, l1)"
        by (auto split: sum.splits)
      then have r1: "r1 = 0" and l1: "l1 = with_lock lk c ls" using 3 by blast+
      then have "for_each_children (assign_lock lk) cs l1 = Inr (ret, ls')" using a c by simp
      then have "ret = 0" and
        "ls' = (\<lambda>k. if k \<in> set (concat (map tree_links cs)) then (l1 k)\<lparr>lock := lk\<rparr> else l1 k)"
        using 3 by blast+
      then show "ret = 0 \<and> ls' = (\<lambda>k. if k \<in> set (concat (map tree_links (c # cs)))
            then (ls k)\<lparr>lock := lk\<rparr> else ls k)"
        using l1 by (auto simp: with_lock_def fun_eq_iff)
    qed
  qed
  then show "for_each_node (assign_lock lk) n ls = Inr (ret, ls') \<Longrightarrow>
     ret = 0 \<and> ls' = with_lock lk n ls" by blast
qed

lemma assign_lock_succeeds:
  "all_linked n \<Longrightarrow> lock_free ls n \<Longrightarrow> distinct (tree_links n) \<Longrightarrow>
   for_each_node (assign_lock lk) n ls = Inr (0, with_lock lk n ls)"
proof -
  have "\<forall>ls. all_linked n \<and> lock_free ls n \<and> distinct (tree_links n) \<longrightarrow>
          (\<exists>ls'. for_each_node (assign_lock lk) n ls = Inr (0, ls'))"
    and "\<forall>ls. list_all all_linked ds \<and>
          list_all (\<lambda>k. lock (ls k) = None) (concat (map tree_links ds)) \<and>
          distinct (concat (map tree_links ds)) \<longrightarrow>
          (\<exists>ls'. for_each_children (assign_lock lk) ds ls = Inr (0, ls'))"
    for ds
  proof (induction n and ds rule: node_list_induct)
    case (1 nm ci l cs)
    show ?case
    proof (intro allI impI)
      fix ls
      assume a: "all_linked (Node nm ci l cs) \<and> lock_free ls (Node nm ci l cs) \<and>
                 distinct (tree_links (Node nm ci l cs))"
      then obtain k where l: "l = Some k" by auto
      let ?ls0 = "ls(k := (ls k)\<lparr>lock := lk\<rparr>)"
      have nl: "lock (ls k) = None" using a l by (simp add: lock_free_def)
      have kn: "k \<notin> set (concat (map tree_links cs))" using a l by auto
      define ls0 where "ls0 = ls(k := (ls k)\<lparr>lock := lk\<rparr>)"
      have "list_all (\<lambda>k'. lock (ls0 k') = None) (concat (map tree_links cs))"
        using a l kn by (auto simp: lock_free_def list_all_iff ls0_def)
      moreover have "list_all all_linked cs" and "distinct (concat (map tree_links cs))"
        using a l by auto
      ultimately have "\<exists>ls'. for_each_children (assign_lock lk) cs ls0 = Inr (0, ls')"
        using 1 by blast
      then obtain ls' where "for_each_children (assign_lock lk) cs ?ls0 = Inr (0, ls')"
        by (auto simp: ls0_def)
      then show "\<exists>ls'. for_each_node (assign_lock lk) (Node nm ci l cs) ls = Inr (0, ls')"
        using l nl by (simp add: assign_lock_def)
    qed
  next
    case 2
    then show ?case by simp
  next
    case (3 c cs)
    show ?case
    proof (intro allI impI)
      fix ls :: "nat \<Rightarrow> Link"
      assume a: "list_all all_linked (c # cs) \<and>
          list_all (\<lambda>k. lock (ls k) = None) (concat (map tree_links (c # cs))) \<and>
          distinct (concat (map tree_links (c # cs)))"
      then have "all_linked c \<and> lock_free ls c \<and> distinct (tree_links c)"
        by (simp add: lock_free_def)
      then obtain l1 where c: "for_each_node (assign_lock lk) c ls = Inr (0, l1)" using 3 by blast
      then have l1: "l1 = with_lock lk c ls" using assign_lock_result by blast
      have dj: "set (tree_links c) \<inter> set (concat (map tree_links cs)) = {}" using a by auto
      have "list_all (\<lambda>k. lock (l1 k) = None) (concat (map tree_links cs))"
        unfolding list_all_iff
      proof
        fix k assume k: "k \<in> set (concat (map tree_links cs))"
        then have "k \<notin> set (tree_links c)" using dj by blast
        then have "l1 k = ls k" using l1 by (simp add: with_lock_def)
        then show "lock (l1 k) = None" using a k by (simp add: list_all_iff)
      qed
      moreover have "list_all all_linked cs" and "distinct (concat (map tree_links cs))"
        using a by auto
      ultimately have "\<exists>ls'. for_each_children (assign_lock lk) cs l1 = Inr (0, ls')"
        using 3 by blast
      then obtain ls' where "for_each_children (assign_lock lk) cs l1 = Inr (0, ls')" by blast
      then show "\<exists>ls'. for_each_children (assign_lock lk) (c # cs) ls = Inr (0, ls')"
        using c by simp
    qed
  qed
  then show "all_linked n \<Longrightarrow> lock_free ls n \<Longrightarrow> distinct (tree_links n) \<Longrightarrow>
   for_each_node (assign_lock lk) n ls = Inr (0, with_lock lk n ls)"
    using assign_lock_result by blast
qed



lemma state_tree_links_id [simp]: "s\<lparr>tree := tree s, links := links s\<rparr> = s"
  by simp

lemma Builder_lock_found:
  assumes tk: "tokenize_path path = (0, tokens)"
    and at: "node_at (tree s) (root b @ tokens) = Some n"
  shows "Builder_lock b path lk s =
     (case for_each_node check_for_locks n (links s) of
        Inl e \<Rightarrow> Inl e
      | Inr (ret, ls0) \<Rightarrow>
          if ret \<noteq> 0 then Inr (ERR_DUPE, s)
          else (case for_each_node (assign_lock lk) n (links s) of
                  Inl e \<Rightarrow> Inl e
                | Inr (ret1, ls1) \<Rightarrow> Inr (0, s\<lparr>links := ls1\<rparr>)))"
proof -
  have ins: "insert_node (tree s) (root b @ tokens) False = (tree s, Some n)"
    using insert_node_lookup[of "tree s" "root b @ tokens"] at by simp
  show ?thesis
  proof (cases "for_each_node check_for_locks n (links s)")
    case (Inl e)
    then show ?thesis using tk ins by (simp add: Builder_lock_def)
  next
    case (Inr x)
    then obtain ret ls0 where x: "x = (ret, ls0)" by (cases x)
    then have "ls0 = links s" using check_for_locks_result Inr by blast
    then show ?thesis using tk ins Inr x by (auto simp: Builder_lock_def split: sum.splits)
  qed
qed

lemma Builder_lock_success:
  assumes "Builder_lock b path lk s = Inr (0, s1)"
  shows "\<exists>tokens n. tokenize_path path = (0, tokens) \<and>
           node_at (tree s) (root b @ tokens) = Some n \<and>
           all_linked n \<and> lock_free (links s) n \<and>
           s1 = s\<lparr>links := with_lock lk n (links s)\<rparr>"
proof -
  obtain ret tokens where tk: "tokenize_path path = (ret, tokens)" by fastforce
  have r0: "ret = 0" using assms tk by (auto simp: Builder_lock_def split: if_splits)
  have ins: "insert_node (tree s) (root b @ tokens) False = (tree s, node_at (tree s) (root b @ tokens))"
    by (rule insert_node_lookup)
  obtain n where at: "node_at (tree s) (root b @ tokens) = Some n"
    using assms tk r0 ins by (cases "node_at (tree s) (root b @ tokens)") (auto simp: Builder_lock_def)
  note f = Builder_lock_found[OF tk[unfolded r0] at, of lk]
  from assms f obtain ret0 ls0 where c: "for_each_node check_for_locks n (links s) = Inr (ret0, ls0)"
    by (auto split: sum.splits)
  have ret0: "ret0 = 0" using assms f c by (auto split: if_splits)
  have al: "all_linked n" and lf: "lock_free (links s) n"
    using check_for_locks_result[OF c] ret0 by simp_all
  from assms f c ret0 obtain ret1 ls1 where
    a: "for_each_node (assign_lock lk) n (links s) = Inr (ret1, ls1)" and s1: "s1 = s\<lparr>links := ls1\<rparr>"
    by (auto split: sum.splits)
  have "ls1 = with_lock lk n (links s)" using assign_lock_result[OF a] by simp
  then show ?thesis using tk r0 at al lf s1 by blast
qed

lemma Builder_lock_dupe:
  assumes "tokenize_path path = (0, tokens)"
    and "node_at (tree s) (root b @ tokens) = Some n"
    and "all_linked n" and "\<not> lock_free (links s) n"
  shows "Builder_lock b path lk s = Inr (ERR_DUPE, s)"
  using Builder_lock_found[OF assms(1,2), of lk] check_for_locks_all_linked[OF assms(3), of "links s"] assms(4)
  by simp

lemma Builder_lock_free:
  assumes "tokenize_path path = (0, tokens)"
    and "node_at (tree s) (root b @ tokens) = Some n"
    and "all_linked n" and "lock_free (links s) n" and "distinct (tree_links n)"
  shows "Builder_lock b path lk s = Inr (0, s\<lparr>links := with_lock lk n (links s)\<rparr>)"
  using Builder_lock_found[OF assms(1,2), of lk] check_for_locks_all_linked[OF assms(3), of "links s"]
    assign_lock_succeeds[OF assms(3,4,5), of lk] assms(4)
  by simp

lemma Builder_lock_step:
  assumes "Builder_lock b path lk s = Inr (code, s1)"
  shows "step_ok s s1"
proof -
  obtain ret tokens where tk: "tokenize_path path = (ret, tokens)" by fastforce
  have ins: "insert_node (tree s) (root b @ tokens) False = (tree s, node_at (tree s) (root b @ tokens))"
    by (rule insert_node_lookup)
  show ?thesis
  proof (cases "ret = 0")
    case False
    then have "s1 = s" using assms tk by (simp add: Builder_lock_def)
    then show ?thesis by (simp add: step_ok_refl)
  next
    case True
    note r0 = True
    show ?thesis
    proof (cases "node_at (tree s) (root b @ tokens)")
      case None
      then have "s1 = s" using assms tk r0 ins by (simp add: Builder_lock_def)
      then show ?thesis by (simp add: step_ok_refl)
    next
      case (Some n)
      note f = Builder_lock_found[OF tk[unfolded r0] Some, of lk]
      show ?thesis
      proof (cases "code = 0")
        case True
        from Builder_lock_success[OF assms[unfolded True]] obtain tokens' n' where
          "tokenize_path path = (0, tokens')" "node_at (tree s) (root b @ tokens') = Some n'"
          and s1: "s1 = s\<lparr>links := with_lock lk n' (links s)\<rparr>" by blast
        then have n': "n' = n" using tk Some by simp
        have sub: "set (tree_links n) \<subseteq> set (tree_links (tree s))"
          using node_at_links_subset[OF Some] .
        have "\<forall>k. k \<notin> set (tree_links (tree s)) \<longrightarrow> links s1 k = links s k"
          using s1 n' sub by (auto simp: with_lock_def)
        then show ?thesis unfolding step_ok_def using s1 by (simp add: well_formed_def)
      next
        case False
        then have "s1 = s" using assms f by (auto split: sum.splits if_splits)
        then show ?thesis by (simp add: step_ok_refl)
      qed
    qed
  qed
qed

lemma handle_ops_step:
  "Channel_get c s = Inr (v, s1) \<Longrightarrow> step_ok s s1"
  "Channel_set c val s = Inr s1 \<Longrightarrow> step_ok s s1"
  "Rivulet_read h dest s = Inr (d, s1) \<Longrightarrow> step_ok s s1"
  "Rivulet_write h src s = Inr s1 \<Longrightarrow> step_ok s s1"
  by (rule step_ok_same_tree_links;
      auto simp: Channel_get_def Channel_set_def serialize_def deserialize_def
        Rivulet_read_def Rivulet_write_def load_def store_def Let_def
        split: if_splits option.splits sum.splits)+

lemma run_command_step: "run_command c s = Inr s1 \<Longrightarrow> step_ok s s1"
proof (cases c)
  case (Channel_decl b p v h)
  assume "run_command c s = Inr s1"
  then show ?thesis using Channel_decl Builder_channel_step
    by (cases "Builder_channel b p v h s") auto
next
  case (Rivulet_decl b p h)
  assume "run_command c s = Inr s1"
  then show ?thesis using Rivulet_decl Builder_rivulet_step
    by (cases "Builder_rivulet b p h s") auto
next
  case (Lock_decl b p lk)
  assume "run_command c s = Inr s1"
  then show ?thesis using Lock_decl Builder_lock_step
    by (cases "Builder_lock b p lk s") auto
next
  case (Sub_decl b p b')
  assume "run_command c s = Inr s1"
  then show ?thesis using Sub_decl Builder_sub_step
    by (cases "Builder_sub b p b' s") auto
next
  case (Get_op h)
  assume "run_command c s = Inr s1"
  then show ?thesis using Get_op handle_ops_step(1)
    by (cases "Channel_get h s") auto
next
  case (Set_op h v)
  assume "run_command c s = Inr s1"
  then show ?thesis using Set_op handle_ops_step(2) by auto
next
  case (Read_op h d)
  assume "run_command c s = Inr s1"
  then show ?thesis using Read_op handle_ops_step(3)
    by (cases "Rivulet_read h d s") auto
next
  case (Write_op h d)
  assume "run_command c s = Inr s1"
  then show ?thesis using Write_op handle_ops_step(4) by auto
qed

lemma run_commands_step: "run_commands cs s = Inr s1 \<Longrightarrow> step_ok s s1"
proof (induction cs arbitrary: s)
  case Nil
  then show ?case by (simp add: step_ok_refl)
next
  case (Cons c cs)
  then obtain s' where 1: "run_command c s = Inr s'" and 2: "run_commands cs s' = Inr s1"
    by (auto split: sum.splits)
  show ?case using step_ok_trans[OF run_command_step[OF 1] Cons.IH[OF 2]] .
qed

lemma distinct_concat_disjoint:
  "distinct (concat (map f cs)) \<Longrightarrow> i < length cs \<Longrightarrow> j < length cs \<Longrightarrow> i \<noteq> j \<Longrightarrow>
   set (f (cs ! i)) \<inter> set (f (cs ! j)) = {}"
proof (induction cs arbitrary: i j)
  case Nil
  then show ?case by simp
next
  case (Cons c cs)
  have d: "set (f c) \<inter> set (concat (map f cs)) = {}" using Cons.prems(1) by auto
  have m: "set (f (cs ! k)) \<subseteq> set (concat (map f cs))" if "k < length cs" for k
  proof -
    have "cs ! k \<in> set cs" using that by simp
    then show ?thesis by auto
  qed
  show ?case
  proof (cases i)
    case 0
    then obtain j' where j: "j = Suc j'" using Cons.prems(4) by (cases j) auto
    then show ?thesis using 0 d m[of j'] Cons.prems(3) by auto
  next
    case (Suc i')
    show ?thesis
    proof (cases j)
      case 0
      then show ?thesis using Suc d m[of i'] Cons.prems(2) by auto
    next
      case (Suc j')
      then show ?thesis using \<open>i = Suc i'\<close> Cons.IH[of i' j'] Cons.prems by auto
    qed
  qed
qed

lemma disjoint_subtrees:
  "node_at n P = Some np \<Longrightarrow> node_at n Q = Some nq \<Longrightarrow> distinct (tree_links n) \<Longrightarrow>
   \<not> prefix P Q \<Longrightarrow> \<not> prefix Q P \<Longrightarrow> set (tree_links np) \<inter> set (tree_links nq) = {}"
proof (induction n P arbitrary: Q rule: node_at.induct)
  case (1 n)
  then show ?case by simp
next
  case (2 nm ci l cs t ts)
  from "2.prems"(5) obtain u us where Q: "Q = u # us" by (cases Q) auto
  from "2.prems"(1) obtain i where i: "find_child t cs = Some i" and ati: "node_at (cs ! i) ts = Some np"
    by (auto split: option.splits)
  from "2.prems"(2) Q obtain j where j: "find_child u cs = Some j" and atj: "node_at (cs ! j) us = Some nq"
    by (auto split: option.splits)
  have il: "i < length cs" and ni: "name (cs ! i) = t" using i find_child_Some by blast+
  have jl: "j < length cs" and nj: "name (cs ! j) = u" using j find_child_Some by blast+
  have dcs: "distinct (concat (map tree_links cs))" using "2.prems"(3) by (cases l) auto
  show ?case
  proof (cases "i = j")
    case True
    then have tu: "t = u" using ni nj by simp
    then have "\<not> prefix ts us" "\<not> prefix us ts" using "2.prems"(4,5) Q by simp_all
    moreover have "distinct (tree_links (cs ! i))" using distinct_concat_nth[OF dcs il] .
    ultimately show ?thesis using "2.IH"[OF i ati] atj True by simp
  next
    case False
    have "set (tree_links (cs ! i)) \<inter> set (tree_links (cs ! j)) = {}"
      using distinct_concat_disjoint[OF dcs il jl False] .
    then show ?thesis using node_at_links_subset[OF ati] node_at_links_subset[OF atj] by blast
  qed
qed

lemma all_linked_node_at: "node_at n p = Some m \<Longrightarrow> all_linked n \<Longrightarrow> all_linked m"
proof (induction n p rule: node_at.induct)
  case (1 n)
  then show ?case by simp
next
  case (2 nm ci l cs token path)
  then obtain i where i: "find_child token cs = Some i" and at: "node_at (cs ! i) path = Some m"
    by (auto split: option.splits)
  have "i < length cs" using i find_child_Some by blast
  then have "all_linked (cs ! i)" using "2.prems"(2) by (simp add: list_all_length)
  then show ?case using "2.IH"[OF i at] by simp
qed

lemma all_linked_root: "all_linked n \<Longrightarrow> \<exists>k. link n = Some k \<and> k \<in> set (tree_links n)"
  by (cases n) auto


text \<open>A node that holds a link keeps it, at its path, through every declaration and
  handle operation (only \<open>build\<close> resets links), and a link that holds a lock keeps that
  lock: \<open>lock\<close> assigns only to links without one.\<close>

lemma set_link_keeps:
  assumes at: "node_at t1 P = Some n0"
    and inf: "\<And>p m. node_at (tree s) p = Some m \<Longrightarrow>
         \<exists>m'. node_at t1 p = Some m' \<and> name m' = name m \<and>
              channel_info m' = channel_info m \<and> link m' = link m"
    and k: "k = (case link n0 of Some k' \<Rightarrow> k' | None \<Rightarrow> next_link s)"
    and fn: "name (f n0) = name n0" and fc: "children (f n0) = children n0"
    and fl: "link (f n0) = Some k"
    and tr: "tree s1 = update_at P f t1"
    and a1: "node_at (tree s) p = Some m" and a3: "link m = Some k'"
  shows "\<exists>m'. node_at (tree s1) p = Some m' \<and> link m' = Some k'"
proof -
  from inf[OF a1] obtain m1 where m1: "node_at t1 p = Some m1" and l1: "link m1 = Some k'"
    using a3 by auto
  show ?thesis
  proof (cases "p = P")
    case True
    then have "m1 = n0" using at m1 by simp
    then have "k = k'" using k l1 by simp
    moreover have "node_at (tree s1) p = Some (f n0)"
      using node_at_update_at_same[where f = f, OF at fn] tr True by simp
    ultimately show ?thesis using fl by simp
  next
    case False
    from node_at_update_at_other[where f = f, OF at fn fc False m1] show ?thesis using tr l1 by auto
  qed
qed

lemma Builder_channel_keeps:
  assumes run: "Builder_channel b path v c s = Inr (code, h, s1)"
    and a1: "node_at (tree s) p = Some m" and a3: "link m = Some k'"
  shows "(\<exists>m'. node_at (tree s1) p = Some m' \<and> link m' = Some k') \<and>
         (\<forall>j. j < next_link s \<longrightarrow> links s1 j = links s j)"
proof -
  obtain ret tokens where tk: "tokenize_path path = (ret, tokens)" by fastforce
  show ?thesis
  proof (cases "ret = 0")
    case False
    then have "s1 = s" using run tk by (simp add: Builder_channel_def)
    then show ?thesis using a1 a3 by simp
  next
    case True
    note r0 = True
    let ?P = "root b @ tokens"
    have ne: "tokens \<noteq> []" using tk r0 tokenize_ok_nonempty by simp
    obtain t1 r where ins: "insert_node (tree s) ?P True = (t1, r)" by fastforce
    obtain n0 where r: "r = Some n0" using insert_node_create_ret[of "tree s" ?P] ins by auto
    have at1: "node_at t1 ?P = Some n0" using insert_node_ret ins r by blast
    have inf1: "\<exists>m'. node_at t1 p = Some m' \<and> name m' = name m \<and>
              channel_info m' = channel_info m \<and> link m' = link m"
      if "node_at (tree s) p = Some m" for p m
      using node_at_insert_node[OF that, of ?P True] ins by simp
    show ?thesis
    proof (cases "channel_info n0 = None")
      case False
      then have s1: "s1 = s\<lparr>tree := t1\<rparr>"
        using run tk r0 ins r by (simp add: Builder_channel_def)
      show ?thesis using inf1[OF a1] a3 s1 by auto
    next
      case True
      note None = True
      define k where "k = (case link n0 of Some k' \<Rightarrow> k' | None \<Rightarrow> next_link s)"
      define f where "f = (\<lambda>n. Node (last tokens) (Some v) (Some k) (children n))"
      have nm: "name n0 = last tokens" using node_at_name[OF at1] ne by simp
      have tr: "tree s1 = update_at ?P f t1"
        and ls: "links s1 = (if link n0 = None then (links s)(next_link s := new_Link) else links s)"
        using run tk r0 ins r None
        by (auto simp: Builder_channel_def ensure_link_def k_def f_def split: option.splits)
      have "\<exists>m'. node_at (tree s1) p = Some m' \<and> link m' = Some k'"
        by (rule set_link_keeps[OF at1 inf1 k_def _ _ _ tr a1 a3]) (simp_all add: f_def nm)
      moreover have "\<forall>j. j < next_link s \<longrightarrow> links s1 j = links s j" using ls by auto
      ultimately show ?thesis by simp
    qed
  qed
qed

lemma Builder_rivulet_keeps:
  assumes run: "Builder_rivulet b path h s = Inr (code, h', s1)"
    and a1: "node_at (tree s) p = Some m" and a3: "link m = Some k'"
  shows "(\<exists>m'. node_at (tree s1) p = Some m' \<and> link m' = Some k') \<and>
         (\<forall>j. j < next_link s \<longrightarrow> links s1 j = links s j)"
proof -
  obtain ret tokens where tk: "tokenize_path path = (ret, tokens)" by fastforce
  show ?thesis
  proof (cases "ret = 0")
    case False
    then have "s1 = s" using run tk by (simp add: Builder_rivulet_def)
    then show ?thesis using a1 a3 by simp
  next
    case True
    let ?P = "root b @ tokens"
    have ins: "insert_node (tree s) ?P False = (tree s, node_at (tree s) ?P)"
      by (rule insert_node_lookup)
    show ?thesis
    proof (cases "node_at (tree s) ?P")
      case None
      then have "s1 = s" using run tk True ins by (simp add: Builder_rivulet_def)
      then show ?thesis using a1 a3 by simp
    next
      case (Some n0)
      define k where "k = (case link n0 of Some k' \<Rightarrow> k' | None \<Rightarrow> next_link s)"
      define f where "f = (\<lambda>n. Node (name n) (channel_info n) (Some k) (children n))"
      have tr: "tree s1 = update_at ?P f (tree s)"
        and ls: "links s1 = (if link n0 = None then (links s)(next_link s := new_Link) else links s)"
        using run tk True ins Some
        by (auto simp: Builder_rivulet_def ensure_link_def k_def f_def split: option.splits)
      have "\<exists>m'. node_at (tree s1) p = Some m' \<and> link m' = Some k'"
        by (rule set_link_keeps[OF Some _ k_def _ _ _ tr a1 a3]) (simp_all add: f_def)
      moreover have "\<forall>j. j < next_link s \<longrightarrow> links s1 j = links s j" using ls by auto
      ultimately show ?thesis by simp
    qed
  qed
qed

lemma Builder_sub_keeps:
  assumes run: "Builder_sub b path b' s = Inr (code, b'', s1)"
    and a1: "node_at (tree s) p = Some m" and a3: "link m = Some k'"
  shows "(\<exists>m'. node_at (tree s1) p = Some m' \<and> link m' = Some k') \<and> links s1 = links s"
proof -
  obtain ret tokens where tk: "tokenize_path path = (ret, tokens)" by fastforce
  show ?thesis
  proof (cases "ret = 0")
    case False
    then have "s1 = s" using run tk by (simp add: Builder_sub_def)
    then show ?thesis using a1 a3 by simp
  next
    case True
    let ?P = "root b @ tokens"
    obtain t1 r where ins: "insert_node (tree s) ?P True = (t1, r)" by fastforce
    have s1: "s1 = s\<lparr>tree := t1\<rparr>" using run tk True ins by (simp add: Builder_sub_def)
    show ?thesis using node_at_insert_node[OF a1, of ?P True] ins a3 s1 by auto
  qed
qed

lemma Builder_lock_keeps:
  assumes run: "Builder_lock b path lk s = Inr (code, s1)"
  shows "tree s1 = tree s \<and> (\<forall>j. lock (links s j) \<noteq> None \<longrightarrow> links s1 j = links s j)"
proof -
  obtain ret tokens where tk: "tokenize_path path = (ret, tokens)" by fastforce
  have ins: "insert_node (tree s) (root b @ tokens) False = (tree s, node_at (tree s) (root b @ tokens))"
    by (rule insert_node_lookup)
  show ?thesis
  proof (cases "ret = 0")
    case False
    then have "s1 = s" using run tk by (simp add: Builder_lock_def)
    then show ?thesis by simp
  next
    case True
    note r0 = True
    show ?thesis
    proof (cases "node_at (tree s) (root b @ tokens)")
      case None
      then have "s1 = s" using run tk r0 ins by (simp add: Builder_lock_def)
      then show ?thesis by simp
    next
      case (Some n)
      note f = Builder_lock_found[OF tk[unfolded r0] Some, of lk]
      show ?thesis
      proof (cases "code = 0")
        case True
        from Builder_lock_success[OF run[unfolded True]] obtain tokens' n' where
          lf: "lock_free (links s) n'"
          and s1: "s1 = s\<lparr>links := with_lock lk n' (links s)\<rparr>" by blast
        have "links s1 j = links s j" if "lock (links s j) \<noteq> None" for j
        proof -
          have "j \<notin> set (tree_links n')" using lf that by (auto simp: lock_free_def list_all_iff)
          then show ?thesis using s1 by (simp add: with_lock_def)
        qed
        then show ?thesis using s1 by simp
      next
        case False
        then have "s1 = s" using run f by (auto split: sum.splits if_splits)
        then show ?thesis by simp
      qed
    qed
  qed
qed

lemma handle_ops_keep_tree:
  "Channel_get c s = Inr (v, u) \<Longrightarrow> tree u = tree s \<and> links u = links s"
  "Channel_set c val s = Inr u \<Longrightarrow> tree u = tree s \<and> links u = links s"
  "Rivulet_read h dest s = Inr (d, u) \<Longrightarrow> tree u = tree s \<and> links u = links s"
  "Rivulet_write h src s = Inr u \<Longrightarrow> tree u = tree s \<and> links u = links s"
  by (auto simp: Channel_get_def Channel_set_def serialize_def deserialize_def
        Rivulet_read_def Rivulet_write_def load_def store_def Let_def
        split: if_splits option.splits sum.splits)

lemma run_command_keeps_lock:
  assumes run: "run_command c s = Inr s1" and w: "well_formed s"
    and a1: "node_at (tree s) p = Some m" and a3: "link m = Some k"
    and lk: "lock (links s k) = Some l"
  shows "\<exists>m'. node_at (tree s1) p = Some m' \<and> link m' = Some k \<and> lock (links s1 k) = Some l"
proof -
  have "k \<in> set (tree_links m)" using tree_links_node[of m] a3 by simp
  then have "k \<in> set (tree_links (tree s))" using node_at_links_subset[OF a1] by blast
  then have kn: "k < next_link s" using w by (simp add: well_formed_def list_all_iff)
  show ?thesis
  proof (cases c)
    case (Channel_decl b path v h)
    then obtain code h' where "Builder_channel b path v h s = Inr (code, h', s1)"
      using run by (cases "Builder_channel b path v h s") auto
    from Builder_channel_keeps[OF this a1 a3] show ?thesis using kn lk by auto
  next
    case (Rivulet_decl b path h)
    then obtain code h' where "Builder_rivulet b path h s = Inr (code, h', s1)"
      using run by (cases "Builder_rivulet b path h s") auto
    from Builder_rivulet_keeps[OF this a1 a3] show ?thesis using kn lk by auto
  next
    case (Lock_decl b path lk')
    then obtain code where "Builder_lock b path lk' s = Inr (code, s1)"
      using run by (cases "Builder_lock b path lk' s") auto
    from Builder_lock_keeps[OF this] show ?thesis using a1 a3 lk by auto
  next
    case (Sub_decl b path b')
    then obtain code b'' where "Builder_sub b path b' s = Inr (code, b'', s1)"
      using run by (cases "Builder_sub b path b' s") auto
    from Builder_sub_keeps[OF this a1 a3] show ?thesis using lk by auto
  next
    case (Get_op h)
    then obtain v where "Channel_get h s = Inr (v, s1)"
      using run by (cases "Channel_get h s") auto
    from handle_ops_keep_tree(1)[OF this] show ?thesis using a1 a3 lk by simp
  next
    case (Set_op h v)
    then have "Channel_set h v s = Inr s1" using run by simp
    from handle_ops_keep_tree(2)[OF this] show ?thesis using a1 a3 lk by simp
  next
    case (Read_op h d)
    then obtain v where "Rivulet_read h d s = Inr (v, s1)"
      using run by (cases "Rivulet_read h d s") auto
    from handle_ops_keep_tree(3)[OF this] show ?thesis using a1 a3 lk by simp
  next
    case (Write_op h d)
    then have "Rivulet_write h d s = Inr s1" using run by simp
    from handle_ops_keep_tree(4)[OF this] show ?thesis using a1 a3 lk by simp
  qed
qed

lemma run_commands_keeps_lock:
  "run_commands cmds s = Inr s1 \<Longrightarrow> well_formed s \<Longrightarrow> node_at (tree s) p = Some m \<Longrightarrow>
   link m = Some k \<Longrightarrow> lock (links s k) = Some l \<Longrightarrow>
   \<exists>m'. node_at (tree s1) p = Some m' \<and> link m' = Some k \<and> lock (links s1 k) = Some l"
proof (induction cmds arbitrary: s m)
  case Nil
  then show ?case by simp
next
  case (Cons c cs)
  from Cons.prems(1) obtain s' where 1: "run_command c s = Inr s'" and 2: "run_commands cs s' = Inr s1"
    by (auto split: sum.splits)
  from run_command_keeps_lock[OF 1 Cons.prems(2,3,4,5)] obtain m' where
    m': "node_at (tree s') p = Some m'" "link m' = Some k" "lock (links s' k) = Some l" by blast
  have "well_formed s'" using run_command_step[OF 1] Cons.prems(2) by (simp add: step_ok_def)
  from Cons.IH[OF 2 this m'] show ?case .
qed


section \<open>Facts used by the claims\<close>

lemmas lock_simps = run_simps with_lock_def lock_free_def well_formed_def

lemmas handle_simps = Channel_get_def Channel_set_def serialize_def deserialize_def
  Rivulet_read_def Rivulet_write_def Rivulet_size_def linked_def load_def store_def
  acquire_def release_def channel_value_def

lemma Builder_channel_success:
  assumes "Builder_channel b path v c s = Inr (0, h, s1)"
  shows "\<exists>tokens k cs. tokenize_path path = (0, tokens) \<and>
           node_at (tree s1) (root b @ tokens) = Some (Node (last tokens) (Some v) (Some k) cs) \<and>
           h = Channel (Some k) (channel_size c)"
proof -
  obtain ret tokens where tk: "tokenize_path path = (ret, tokens)" by fastforce
  have r0: "ret = 0" using assms tk by (auto simp: Builder_channel_def split: if_splits)
  let ?P = "root b @ tokens"
  have ne: "tokens \<noteq> []" using tk r0 tokenize_ok_nonempty by simp
  obtain t1 r where ins: "insert_node (tree s) ?P True = (t1, r)" by fastforce
  obtain n0 where r: "r = Some n0" using insert_node_create_ret[of "tree s" ?P] ins by auto
  have at1: "node_at t1 ?P = Some n0" using insert_node_ret ins r by blast
  have ci: "channel_info n0 = None"
    using assms tk r0 ins r by (auto simp: Builder_channel_def split: if_splits)
  define k where "k = (case link n0 of Some k' \<Rightarrow> k' | None \<Rightarrow> next_link s)"
  define f where "f = (\<lambda>n. Node (last tokens) (Some v) (Some k) (children n))"
  have nm: "name n0 = last tokens" using node_at_name[OF at1] ne by simp
  have tr: "tree s1 = update_at ?P f t1" and h: "h = Channel (Some k) (channel_size c)"
    using assms tk r0 ins r ci
    by (auto simp: Builder_channel_def ensure_link_def k_def f_def split: option.splits)
  have "node_at (tree s1) ?P = Some (f n0)"
    using node_at_update_at_same[where f = f, OF at1] tr nm by (simp add: f_def)
  then show ?thesis using tk r0 h by (auto simp: f_def)
qed

lemma build_river:
  assumes "build_node r n (ls, st) = Inr (ls', st')"
  shows "(\<forall>k. river (ls k) = Some r \<longrightarrow> river (ls' k) = Some r) \<and>
         (\<forall>k \<in> set (tree_links n). river (ls' k) = Some r)"
  using assms
proof (induction rule: build_induct[where
      Q = "\<lambda>cs ls st ls' st'. (\<forall>k. river (ls k) = Some r \<longrightarrow> river (ls' k) = Some r) \<and>
         (\<forall>k \<in> set (concat (map tree_links cs)). river (ls' k) = Some r)"])
  case (unlinked nm ci cs ls st ls' st')
  then show ?case by simp
next
  case (linked nm ci k cs ls st ls4 st')
  have "river (pre_link r ci (length st) (ls k)) = Some r"
    by (simp add: pre_link_def split: option.splits)
  then have "river (ls4 k) = Some r" using linked(2) by simp
  then show ?case using linked(2) by (auto simp: post_link_def pre_link_def split: option.splits)
next
  case (nil ls st)
  then show ?case by simp
next
  case (cons c cs ls st ls1 st1 ls' st')
  then show ?case by auto
qed

text \<open>A handle operation sees the state only through the handle's link and the river that
  link refers to.\<close>

lemma Channel_get_cong:
  assumes "links t k = links t' k"
    and "\<And>r. river (links t k) = Some r \<Longrightarrow> rivers t r = rivers t' r"
  shows "map_sum id fst (Channel_get (Channel (Some k) n) t)
       = map_sum id fst (Channel_get (Channel (Some k) n) t')"
  using assms
  by (auto simp: Channel_get_def serialize_def linked_def load_def Let_def
      split: option.splits sum.splits)

lemma Rivulet_read_cong:
  assumes "links t k = links t' k"
    and "\<And>r. river (links t k) = Some r \<Longrightarrow> rivers t r = rivers t' r"
  shows "map_sum id fst (Rivulet_read (Rivulet (Some k)) d t)
       = map_sum id fst (Rivulet_read (Rivulet (Some k)) d t')"
  using assms
  by (auto simp: Rivulet_read_def linked_def load_def Let_def
      split: option.splits sum.splits)

lemma Rivulet_size_cong:
  assumes "links t k = links t' k"
  shows "Rivulet_size (Rivulet (Some k)) t = Rivulet_size (Rivulet (Some k)) t'"
  using assms by (simp add: Rivulet_size_def linked_def)

lemma Channel_set_cong:
  assumes "links t k = links t' k" and "rivers t r = rivers t' r"
    and "river (links t k) = Some r"
  shows "map_sum id (\<lambda>u. rivers u r) (Channel_set (Channel (Some k) n) w t)
       = map_sum id (\<lambda>u. rivers u r) (Channel_set (Channel (Some k) n) w t')"
  using assms
  by (auto simp: Channel_set_def deserialize_def linked_def store_def Let_def
      split: option.splits sum.splits)

lemma Rivulet_write_cong:
  assumes "links t k = links t' k" and "rivers t r = rivers t' r"
    and "river (links t k) = Some r"
  shows "map_sum id (\<lambda>u. rivers u r) (Rivulet_write (Rivulet (Some k)) src t)
       = map_sum id (\<lambda>u. rivers u r) (Rivulet_write (Rivulet (Some k)) src t')"
  using assms
  by (auto simp: Rivulet_write_def linked_def store_def Let_def
      split: option.splits sum.splits)

lemma Channel_set_other_river:
  "Channel_set (Channel (Some k) n) w t = Inr u \<Longrightarrow> river (links t k) \<noteq> Some r' \<Longrightarrow>
   rivers u r' = rivers t r'"
  by (auto simp: Channel_set_def deserialize_def linked_def store_def Let_def
      split: option.splits sum.splits if_splits)

lemma Rivulet_write_other_river:
  "Rivulet_write (Rivulet (Some k)) src t = Inr u \<Longrightarrow> river (links t k) \<noteq> Some r' \<Longrightarrow>
   rivers u r' = rivers t r'"
  by (auto simp: Rivulet_write_def linked_def store_def Let_def
      split: option.splits sum.splits if_splits)

lemma concat_split_bytes: "sum_list ns \<le> length b \<Longrightarrow> concat (split_bytes ns b) = take (sum_list ns) b"
proof (induction ns arbitrary: b)
  case Nil
  then show ?case by simp
next
  case (Cons n ns)
  then have "concat (split_bytes ns (drop n b)) = take (sum_list ns) (drop n b)" by simp
  then show ?case by (simp add: take_add)
qed

lemma split_bytes_append: "sum_list ns \<le> length b \<Longrightarrow> split_bytes ns (b @ c) = split_bytes ns b"
  by (induction ns arbitrary: b) auto

lemma split_bytes_zero: "sum_list ns = 0 \<Longrightarrow> split_bytes ns x = split_bytes ns y"
  by (induction ns arbitrary: x y) auto

lemma chan_slots_size_list:
  "sum_list (map snd (concat (map chan_slots cs))) = length (concat (map built_bytes cs))"
  by (induction cs) (auto simp: chan_slots_size)

lemma laid_out_gets:
  "laid_out (links t) r off slots \<Longrightarrow> off + sum_list (map snd slots) \<le> length (rivers t r) \<Longrightarrow>
   map (\<lambda>(k, n). channel_value (Channel (Some k) n) t) slots
     = map Inr (split_bytes (map snd slots) (drop off (rivers t r)))"
proof (induction slots arbitrary: off)
  case Nil
  then show ?case by simp
next
  case (Cons a slots)
  obtain k n where a: "a = (k, n)" by (cases a)
  have rv: "river (links t k) = Some r" and of: "channel_offset (links t k) = Some off"
    and lo: "laid_out (links t) r (off + n) slots" using Cons.prems(1) a by simp_all
  have le: "off + n \<le> length (rivers t r)" using Cons.prems(2) a by simp
  have le2: "off + n + sum_list (map snd slots) \<le> length (rivers t r)" using Cons.prems(2) a by simp
  have h: "channel_value (Channel (Some k) n) t = Inr (take n (drop off (rivers t r)))"
    using Channel_get_linked[OF rv of le] by (simp add: channel_value_def)
  have "drop (off + n) (rivers t r) = drop n (drop off (rivers t r))" by (simp add: add.commute)
  then show ?case using Cons.IH[OF lo le2] h a by simp
qed

lemma handle_ops_keep_shape:
  "Channel_get c s = Inr (v, u) \<Longrightarrow> links u = links s \<and> rivers u = rivers s"
  "Channel_set c val s = Inr u \<Longrightarrow> links u = links s \<and> (\<forall>r. length (rivers u r) = length (rivers s r))"
  "Rivulet_read h dest s = Inr (d, u) \<Longrightarrow> links u = links s \<and> rivers u = rivers s"
  "Rivulet_write h src s = Inr u \<Longrightarrow> links u = links s \<and> (\<forall>r. length (rivers u r) = length (rivers s r))"
  by (auto simp: Channel_get_def Channel_set_def serialize_def deserialize_def
        Rivulet_read_def Rivulet_write_def load_def store_def Let_def length_memcpy
        split: if_splits option.splits sum.splits)

lemma wf_init_state: "well_formed init_state"
  by (simp add: well_formed_def init_state_def)

lemma wf_run_commands: "well_formed s \<Longrightarrow> run_commands cmds s = Inr s' \<Longrightarrow> well_formed s'"
  using run_commands_step[of cmds s s'] by (simp add: step_ok_def)

lemma wf_Builder_build: "Builder_build b s = Inr (code, ro, s') \<Longrightarrow> well_formed s \<Longrightarrow> well_formed s'"
  by (auto simp: Builder_build_def new_River_def well_formed_def tree_links_remove_link
      split: if_splits sum.splits)

text \<open>While every channel node holds a link, as before the first build, the river is the
  initial values of all declared channels in document order.\<close>

lemma build_all_channels:
  assumes "Builder_build b s = Inr (0, Some r, s')" and "channels_linked (tree s)"
  shows "rivers s' r = all_bytes (tree s)"
proof -
  from Builder_build_success[OF assms(1)] obtain ls st where
    bn: "build_node (next_river s) (tree s) (links s, []) = Inr (ls, st)"
    and r: "Some r = Some (next_river s)"
    and s': "s' = s\<lparr>rivers := (rivers s)(next_river s := st), next_river := Suc (next_river s),
                  links := ls, tree := remove_link (tree s)\<rparr>" by auto
  have "st = built_bytes (tree s)" using build_storage[OF bn] by simp
  then show ?thesis using r s' channels_linked_bytes[OF assms(2)] by simp
qed


section \<open>The rivulet offset\<close>

text \<open>
  Claim C1: after \<open>build()\<close> the link of a rivulet root whose subtree holds a channel has
  \<open>rivulet_offset\<close> equal to the offset of the first channel below it in document order.

  \<open>build_node\<close> takes the offset from \<open>children[0]->link->channel_offset\<close>, which is the
  first channel's offset only when the first child is itself a channel. After
  \<open>channel("a.b.c")\<close> and \<open>rivulet("a")\<close> the first child \<open>b\<close> of \<open>a\<close> has no link and
  \<open>build()\<close> dereferences a null pointer. After \<open>channel("z")\<close>, \<open>channel("a.b.c")\<close>,
  \<open>rivulet("a.b")\<close> and \<open>rivulet("a")\<close> the build returns, the channel \<open>c\<close> lies at offset 4,
  and the link of \<open>a\<close> (address 3) has the \<open>channel_offset\<close> of \<open>b\<close>'s link, which was never
  assigned.
\<close>

theorem build_rivulet_offset_first_child_not_channel:
  "(\<exists>h1 s1 h2 s2.
      Builder_channel RootBuilder ''a.b.c'' [1] (Channel None 1) init_state = Inr (0, h1, s1) \<and>
      Builder_rivulet RootBuilder ''a'' (Rivulet None) s1 = Inr (0, h2, s2) \<and>
      Builder_build RootBuilder s2 = Inl NullDereference) \<and>
   (\<exists>h0 s0 h1 s1 h2 s2 h3 s3 r s4.
      Builder_channel RootBuilder ''z'' [9, 9, 9, 9] (Channel None 4) init_state = Inr (0, h0, s0) \<and>
      Builder_channel RootBuilder ''a.b.c'' [1, 2] (Channel None 2) s0 = Inr (0, h1, s1) \<and>
      Builder_rivulet RootBuilder ''a.b'' (Rivulet None) s1 = Inr (0, h2, s2) \<and>
      Builder_rivulet RootBuilder ''a'' (Rivulet None) s2 = Inr (0, h3, s3) \<and>
      Builder_build RootBuilder s3 = Inr (0, Some r, s4) \<and>
      h1 = Channel (Some 1) 2 \<and> h3 = Rivulet (Some 3) \<and>
      channel_offset (links s4 1) = Some 4 \<and>
      rivulet_size (links s4 3) = Some 2 \<and>
      rivulet_offset (links s4 3) = None)"
  by (simp add: run_simps)

section \<open>Building twice\<close>

text \<open>
  Claim C2: every successful \<open>build()\<close> on the root builder, a second one from the same
  schema included, allocates storage as large as all declared channels together.

  \<open>build()\<close> ends by resetting the link of every node, and \<open>build_node\<close> adds a channel
  to the river only when its node has a link. After \<open>channel("foo")\<close> with a four-byte value
  the first build allocates four bytes and the second build none.
\<close>

theorem second_build_allocates_nothing:
  "\<exists>h1 s1 r1 s2 r2 s3.
     Builder_channel RootBuilder ''foo'' [32, 0, 0, 0] (Channel None 4) init_state = Inr (0, h1, s1) \<and>
     Builder_build RootBuilder s1 = Inr (0, Some r1, s2) \<and>
     Builder_build RootBuilder s2 = Inr (0, Some r2, s3) \<and>
     channel_info (the (node_at (tree s2) [''foo''])) = Some [32, 0, 0, 0] \<and>
     length (rivers s2 r1) = 4 \<and> length (rivers s3 r2) = 0"
  by (simp add: run_simps)

section \<open>Locking a subtree with an unlinked node\<close>

text \<open>
  Claim C3: whenever \<open>lock(path, L)\<close> finds the node at \<open>path\<close>, every node of its subtree
  already has a link, so the assertions of the traversal cannot fail.

  \<open>insert_node\<close> creates the inner nodes of a path without a link. After
  \<open>channel("a.b")\<close> the node \<open>a\<close> exists and has none, and \<open>lock("a", L)\<close> fails
  \<open>assert(node->link)\<close>.
\<close>

theorem lock_asserts_on_unlinked_node:
  "\<exists>h1 s1.
     Builder_channel RootBuilder ''a.b'' [1] (Channel None 1) init_state = Inr (0, h1, s1) \<and>
     node_at (tree s1) [''a''] = Some (Node ''a'' None None [Node ''b'' (Some [1]) (Some 0) []]) \<and>
     Builder_lock RootBuilder ''a'' (Some 0) s1 = Inl AssertionFailed"
  by (simp add: run_simps)

section \<open>Tokenization\<close>

text \<open>
  Claim C4: every path that \<open>tokenize_path\<close> accepts is reproduced by joining its tokens
  with dots, and every path with an empty token is rejected with \<open>ERR_INVALID\<close>.

  The code does not do this for a path that ends in a dot: \<open>std::getline\<close> yields no
  token after the last separator, so the check for empty tokens never sees the empty
  last token. The path \<open>a.\<close> is accepted with the single token \<open>a\<close>, and joining gives
  \<open>a\<close>, not \<open>a.\<close>.
\<close>

theorem tokenize_path_accepts_trailing_dot:
  "tokenize_path ''a.'' = (0, [''a'']) \<and> join_tokens [''a''] \<noteq> ''a.''"
  by (simp add: run_simps)

section \<open>Rivulet size, read and write\<close>

text \<open>
  Claim C5, as amended: let a rivulet handle be taken at a node \<open>m\<close> (its link is \<open>k\<close>)
  whose first child, if it has children, is a channel node, and let every channel node below
  \<open>m\<close> hold a link when \<open>build()\<close> runs (as on the first build). Let the channels below
  \<open>m\<close> be taken in document order (depth first, children in insertion order), with their
  sizes \<open>s1..sn\<close>; the node's own channel, if any, is not among them. Then in every state
  \<open>t\<close> that has the links of the built state and rivers of the same lengths (any state
  reached by handle operations): \<open>size()\<close> is \<open>s1+...+sn\<close>; \<open>read()\<close> into a buffer of
  that size gives the concatenation of the values \<open>get()\<close> returns for those channels, in
  that order; and after \<open>write()\<close> of such a buffer the channels read back the pieces of
  the buffer, cut by their sizes in that order.

  The claim as stated takes the channels in declaration order; the layout follows the tree.
\<close>

theorem rivulet_layout:
  assumes well_formed: "well_formed s"
    and at: "node_at (tree s) p = Some m" and lk: "link m = Some k"
    and cl: "list_all channels_linked (children m)"
    and first: "children m = [] \<or> channel_info (hd (children m)) \<noteq> None"
    and bd: "Builder_build bl s = Inr (0, ro, s')"
    and lt: "links t = links s'" and rt: "\<forall>r. length (rivers t r) = length (rivers s' r)"
    and lb: "length buf = length (concat (map all_bytes (children m)))"
  shows "Rivulet_size (Rivulet (Some k)) t = Inr (length (concat (map all_bytes (children m)))) \<and>
         sum_list (map snd (concat (map chan_slots (children m))))
           = length (concat (map all_bytes (children m))) \<and>
         (\<exists>vals u.
            map (\<lambda>(k', n). channel_value (Channel (Some k') n) t)
                (concat (map chan_slots (children m))) = map Inr vals \<and>
            Rivulet_read (Rivulet (Some k)) (Some buf) t = Inr (Some (concat vals), u)) \<and>
         (\<exists>u. Rivulet_write (Rivulet (Some k)) (Some buf) t = Inr u \<and>
            map (\<lambda>(k', n). channel_value (Channel (Some k') n) u)
                (concat (map chan_slots (children m)))
              = map Inr (split_bytes (map snd (concat (map chan_slots (children m)))) buf))"
proof -
  let ?r = "next_river s"
  from Builder_build_success[OF bd] obtain ls st where
    bn: "build_node ?r (tree s) (links s, []) = Inr (ls, st)" and ro: "ro = Some ?r"
    and s': "s' = s\<lparr>rivers := (rivers s)(?r := st), next_river := Suc ?r,
                  links := ls, tree := remove_link (tree s)\<rparr>" by auto
  have d: "distinct (tree_links (tree s))" using well_formed by (simp add: well_formed_def)
  from build_node_at[OF bn d at] obtain ls_a st_a ls_b st_b post where
    bm: "build_node ?r m (ls_a, st_a) = Inr (ls_b, st_b)" and st: "st = st_b @ post"
    and eq: "\<forall>k' \<in> set (tree_links m). ls k' = ls_b k'" by blast
  obtain nm ci cs where mm: "m = Node nm ci (Some k) cs" using lk by (cases m) auto
  have dm: "distinct (tree_links (Node nm ci (Some k) cs))"
    using node_at_distinct[OF at d] mm by simp
  note rl = build_root_link[OF bm[unfolded mm] dm]
  let ?slots = "concat (map chan_slots cs)"
  let ?off = "length st_a + length (own_bytes ci)"
  define total where "total = length (concat (map all_bytes cs))"
  have tot: "sum_list (map snd ?slots) = total"
    using chan_slots_size_list[of cs] channels_linked_bytes_list[of cs] cl mm
    by (simp add: total_def)
  have km: "k \<in> set (tree_links m)" using mm by simp
  have lsk: "ls k = ls_b k" using eq km by blast
  have sl: "fst ` set ?slots \<subseteq> set (tree_links m)"
    using chan_slots_links_list[of cs] mm by auto
  have "\<forall>k' \<in> fst ` set ?slots. ls k' = ls_b k'" using eq sl by blast
  from laid_out_cong[OF this]
  have lo: "laid_out ls ?r ?off ?slots" using rl(6) by simp
  have rv: "river (ls k) = Some ?r" using rl(1) lsk by simp
  have rs: "rivulet_size (ls k) = Some total"
    using rl(2) lsk by (simp add: sum_children_eq total_def)
  have stb: "st = st_a @ own_bytes ci @ concat (map built_bytes cs) @ post" using st rl(7) by simp
  have lent: "?off + total \<le> length st"
    using stb tot chan_slots_size_list[of cs] by simp
  have roff: "\<exists>off. rivulet_offset (ls k) = Some off \<and> off + total \<le> length st \<and>
                (total = 0 \<or> off = ?off)"
  proof (cases cs)
    case Nil
    then have "total = 0" by (simp add: total_def)
    moreover have "rivulet_offset (ls k) = Some 0" using rl(3) Nil lsk by simp
    ultimately show ?thesis by simp
  next
    case (Cons c0 cs')
    then obtain k0 where k0: "link c0 = Some k0"
      and ro: "rivulet_offset (ls_b k) = channel_offset (ls_b k0)" using rl(4) by auto
    obtain iv where iv: "channel_info c0 = Some iv" using first mm Cons by auto
    obtain nm0 cs0 where c0: "c0 = Node nm0 (Some iv) (Some k0) cs0" using k0 iv by (cases c0) auto
    have "laid_out ls_b ?r ?off ?slots" using rl(6) .
    then have "channel_offset (ls_b k0) = Some ?off" using Cons c0 by simp
    then show ?thesis using ro lsk lent by simp
  qed
  then obtain off where off: "rivulet_offset (ls k) = Some off" and le: "off + total \<le> length st"
    and off0: "total = 0 \<or> off = ?off" by blast
  have lst: "links t = ls" using lt s' by simp
  define mem where "mem = rivers t ?r"
  have lm: "length mem = length st" using rt s' by (simp add: mem_def)
  have lbuf: "length buf = total" using lb mm by (simp add: total_def)
  have same_region: "take total (drop off mem') = take total (drop ?off mem')" for mem' :: "byte list"
    using off0 by auto
  \<comment> \<open>size\<close>
  have A: "Rivulet_size (Rivulet (Some k)) t = Inr total"
    using Rivulet_size_linked[of t k ?r total] rv rs lst by simp
  \<comment> \<open>read\<close>
  have gets: "map (\<lambda>(k', n). channel_value (Channel (Some k') n) t) ?slots
     = map Inr (split_bytes (map snd ?slots) (drop ?off mem))"
    using laid_out_gets[of t ?r ?off ?slots] lo lst tot lent lm by (simp add: mem_def)
  have rd: "Rivulet_read (Rivulet (Some k)) (Some buf) t =
           Inr (Some (take total (drop off mem) @ drop total buf),
                release (lock (links t k)) (acquire (lock (links t k)) t))"
    using Rivulet_read_linked[of t k ?r off total buf] rv rs off lst le lm lbuf
    by (simp add: mem_def)
  have "concat (split_bytes (map snd ?slots) (drop ?off mem)) = take total (drop ?off mem)"
    using concat_split_bytes[of "map snd ?slots" "drop ?off mem"] tot lent lm by simp
  then have cc: "concat (split_bytes (map snd ?slots) (drop ?off mem)) = take total (drop off mem) @ drop total buf"
    using same_region[of mem] lbuf by simp
  have B: "\<exists>vals u.
            map (\<lambda>(k', n). channel_value (Channel (Some k') n) t) ?slots = map Inr vals \<and>
            Rivulet_read (Rivulet (Some k)) (Some buf) t = Inr (Some (concat vals), u)"
    using gets rd cc by metis
  \<comment> \<open>write\<close>
  define u where "u = release (lock (links t k))
                 ((acquire (lock (links t k)) t)
                    \<lparr>rivers := (rivers t)(?r := memcpy (rivers t ?r) off (take total buf))\<rparr>)"
  have wr: "Rivulet_write (Rivulet (Some k)) (Some buf) t = Inr u"
    using Rivulet_write_linked[of t k ?r off total buf] rv rs off lst le lm lbuf
    by (simp add: mem_def u_def)
  have lu: "links u = ls" and ru: "rivers u ?r = memcpy mem off buf"
    using lst lbuf by (simp_all add: u_def mem_def)
  have lmu: "length (rivers u ?r) = length st" using ru length_memcpy[of off buf mem] le lm lbuf by simp
  have getsu: "map (\<lambda>(k', n). channel_value (Channel (Some k') n) u) ?slots
     = map Inr (split_bytes (map snd ?slots) (drop ?off (rivers u ?r)))"
    using laid_out_gets[of u ?r ?off ?slots] lo lu tot lent lmu by simp
  have "split_bytes (map snd ?slots) (drop ?off (rivers u ?r)) = split_bytes (map snd ?slots) buf"
  proof (cases "total = 0")
    case True
    then have "sum_list (map snd ?slots) = 0" using tot by simp
    then show ?thesis by (rule split_bytes_zero)
  next
    case False
    then have "off = ?off" using off0 by simp
    then have "drop ?off (rivers u ?r) = buf @ drop (?off + total) mem"
      using ru le lm lbuf by (simp add: memcpy_def)
    then show ?thesis using split_bytes_append[of "map snd ?slots" buf] tot lbuf by simp
  qed
  then have C: "\<exists>u. Rivulet_write (Rivulet (Some k)) (Some buf) t = Inr u \<and>
            map (\<lambda>(k', n). channel_value (Channel (Some k') n) u) ?slots
              = map Inr (split_bytes (map snd ?slots) buf)"
    using wr getsu by auto
  show ?thesis using A B C tot mm by (simp add: total_def)
qed

theorem rivulet_layout_witness:
  "\<exists>hp s1 hv s2 ho s3 hc s4 ro s5 u1 u2.
     Builder_channel RootBuilder ''c.p'' [1, 2] (Channel None 2) init_state = Inr (0, hp, s1) \<and>
     Builder_channel RootBuilder ''c.p.v'' [3] (Channel None 1) s1 = Inr (0, hv, s2) \<and>
     Builder_channel RootBuilder ''c.o'' [4] (Channel None 1) s2 = Inr (0, ho, s3) \<and>
     Builder_rivulet RootBuilder ''c'' (Rivulet None) s3 = Inr (0, hc, s4) \<and>
     Builder_build RootBuilder s4 = Inr (0, ro, s5) \<and>
     Rivulet_size hc s5 = Inr 4 \<and>
     Rivulet_read hc (Some [0, 0, 0, 0]) s5 = Inr (Some [1, 2, 3, 4], u1) \<and>
     Rivulet_write hc (Some [9, 8, 7, 6]) s5 = Inr u2 \<and>
     map (\<lambda>h. channel_value h u2) [hp, hv, ho] = [Inr [9, 8], Inr [7], Inr [6]]"
proof -
  define m where "m = Node ''c'' None (Some 3)
     [Node ''p'' (Some [1, 2]) (Some 0) [Node ''v'' (Some [3 :: byte]) (Some 1) []],
      Node ''o'' (Some [4]) (Some 2) []]"
  obtain hp s1 hv s2 ho s3 hc s4 ro s5 u1 where
    c1: "Builder_channel RootBuilder ''c.p'' [1, 2] (Channel None 2) init_state = Inr (0, hp, s1)"
    and c2: "Builder_channel RootBuilder ''c.p.v'' [3] (Channel None 1) s1 = Inr (0, hv, s2)"
    and c3: "Builder_channel RootBuilder ''c.o'' [4] (Channel None 1) s2 = Inr (0, ho, s3)"
    and c4: "Builder_rivulet RootBuilder ''c'' (Rivulet None) s3 = Inr (0, hc, s4)"
    and bd: "Builder_build RootBuilder s4 = Inr (0, ro, s5)"
    and hs: "hp = Channel (Some 0) 2" "hv = Channel (Some 1) 1" "ho = Channel (Some 2) 1"
      "hc = Rivulet (Some 3)"
    and well_formed: "well_formed s4" and at: "node_at (tree s4) [''c''] = Some m"
    and rd: "Rivulet_read hc (Some [0, 0, 0, 0]) s5 = Inr (Some [1, 2, 3, 4], u1)"
    by (simp add: run_simps handle_simps well_formed_def m_def)
  have lk: "link m = Some 3" and cl: "list_all channels_linked (children m)"
    and first: "children m = [] \<or> channel_info (hd (children m)) \<noteq> None"
    and lb: "length [9, 8, 7, 6 :: byte] = length (concat (map all_bytes (children m)))"
    and slots: "concat (map chan_slots (children m)) = [(0, 2), (1, 1), (2, 1)]"
    by (simp_all add: m_def)
  from rivulet_layout[OF well_formed at lk cl first bd refl _ lb]
  have sz: "Rivulet_size (Rivulet (Some 3)) s5 = Inr (length (concat (map all_bytes (children m))))"
    and "\<exists>u. Rivulet_write (Rivulet (Some 3)) (Some [9, 8, 7, 6]) s5 = Inr u \<and>
            map (\<lambda>(k', n). channel_value (Channel (Some k') n) u)
                (concat (map chan_slots (children m)))
              = map Inr (split_bytes (map snd (concat (map chan_slots (children m)))) [9, 8, 7, 6])"
    by simp_all
  then obtain u2 where wr: "Rivulet_write (Rivulet (Some 3)) (Some [9, 8, 7, 6]) s5 = Inr u2"
    and gv: "map (\<lambda>(k', n). channel_value (Channel (Some k') n) u2) [(0, 2), (1, 1), (2, 1)]
              = map Inr (split_bytes (map snd [(0, 2), (1, 1), (2 :: nat, 1 :: nat)]) [9, 8, 7, 6])"
    using slots by auto
  have sz': "Rivulet_size hc s5 = Inr 4" using sz hs by (simp add: m_def)
  have wr': "Rivulet_write hc (Some [9, 8, 7, 6]) s5 = Inr u2" using wr hs by simp
  have gv': "map (\<lambda>h. channel_value h u2) [hp, hv, ho] = [Inr [9, 8], Inr [7], Inr [6]]"
    using gv hs by (simp add: numeral_2_eq_2)
  show ?thesis
    apply (rule exI[of _ hp], rule exI[of _ s1], rule exI[of _ hv], rule exI[of _ s2])
    apply (rule exI[of _ ho], rule exI[of _ s3], rule exI[of _ hc], rule exI[of _ s4])
    apply (rule exI[of _ ro], rule exI[of _ s5], rule exI[of _ u1], rule exI[of _ u2])
    apply (intro conjI)
    apply (rule c1, rule c2, rule c3, rule c4, rule bd, rule sz', rule rd, rule wr', rule gv')
    done
qed

text \<open>Three one-byte channels declared in the order \<open>a.x\<close>, \<open>a.z\<close>, \<open>a.x.y\<close> with values
  1, 2, 3: the rivulet at \<open>a\<close> reads 1, 3, 2, not the values in declaration order.\<close>

theorem rivulet_declaration_order_counterexample:
  "\<exists>hx s1 hz s2 hy s3 ha s4 ro s5 u.
     Builder_channel RootBuilder ''a.x'' [1] (Channel None 1) init_state = Inr (0, hx, s1) \<and>
     Builder_channel RootBuilder ''a.z'' [2] (Channel None 1) s1 = Inr (0, hz, s2) \<and>
     Builder_channel RootBuilder ''a.x.y'' [3] (Channel None 1) s2 = Inr (0, hy, s3) \<and>
     Builder_rivulet RootBuilder ''a'' (Rivulet None) s3 = Inr (0, ha, s4) \<and>
     Builder_build RootBuilder s4 = Inr (0, ro, s5) \<and>
     map (\<lambda>h. channel_value h s5) [hx, hz, hy] = [Inr [1], Inr [2], Inr [3]] \<and>
     Rivulet_read ha (Some [0, 0, 0]) s5 = Inr (Some [1, 3, 2], u) \<and>
     [1, 3, 2] \<noteq> concat [[1], [2], [3 :: byte]]"
  by (simp add: run_simps handle_simps)

section \<open>Building again\<close>

text \<open>
  Claim C6: let \<open>build()\<close> succeed twice on the same builder, with any declarations and
  handle operations \<open>cmds\<close> in between. The two rivers are distinct; no link that existed
  at the first build is written by the second build or by the declarations; the second
  build writes no river but its own; every link the first build populated still refers to
  the first river; and through such a link \<open>get()\<close>, \<open>read()\<close> and \<open>size()\<close> return after
  the second build what they returned before it, while \<open>set()\<close> and \<open>write()\<close> store into
  the first river what they would have stored before it and leave the second river as
  built.
\<close>

theorem rebuild_independent:
  assumes well_formed: "well_formed s"
    and b1: "Builder_build bl s = Inr (0, Some r1, s1)"
    and run: "run_commands cmds s1 = Inr s2"
    and b2: "Builder_build bl' s2 = Inr (0, Some r2, s3)"
  shows "r1 \<noteq> r2 \<and>
         (\<forall>k. k < next_link s \<longrightarrow> links s3 k = links s2 k \<and> links s2 k = links s1 k) \<and>
         (\<forall>r. r \<noteq> r2 \<longrightarrow> rivers s3 r = rivers s2 r) \<and>
         (\<forall>k \<in> set (tree_links (tree s)).
            river (links s3 k) = Some r1 \<and>
            (\<forall>n d w.
               map_sum id fst (Channel_get (Channel (Some k) n) s3)
                 = map_sum id fst (Channel_get (Channel (Some k) n) s2) \<and>
               map_sum id fst (Rivulet_read (Rivulet (Some k)) d s3)
                 = map_sum id fst (Rivulet_read (Rivulet (Some k)) d s2) \<and>
               Rivulet_size (Rivulet (Some k)) s3 = Rivulet_size (Rivulet (Some k)) s2 \<and>
               map_sum id (\<lambda>u. (rivers u r1, rivers u r2)) (Channel_set (Channel (Some k) n) w s3)
                 = map_sum id (\<lambda>u. (rivers u r1, rivers s3 r2)) (Channel_set (Channel (Some k) n) w s2) \<and>
               map_sum id (\<lambda>u. (rivers u r1, rivers u r2)) (Rivulet_write (Rivulet (Some k)) d s3)
                 = map_sum id (\<lambda>u. (rivers u r1, rivers s3 r2)) (Rivulet_write (Rivulet (Some k)) d s2)))"
proof -
  from Builder_build_success[OF b1] obtain ls1 st1 where
    bn1: "build_node (next_river s) (tree s) (links s, []) = Inr (ls1, st1)"
    and r1: "r1 = next_river s"
    and s1: "s1 = s\<lparr>rivers := (rivers s)(next_river s := st1), next_river := Suc (next_river s),
                  links := ls1, tree := remove_link (tree s)\<rparr>" by auto
  from Builder_build_success[OF b2] obtain ls3 st3 where
    bn2: "build_node (next_river s2) (tree s2) (links s2, []) = Inr (ls3, st3)"
    and r2: "r2 = next_river s2"
    and s3: "s3 = s2\<lparr>rivers := (rivers s2)(next_river s2 := st3), next_river := Suc (next_river s2),
                  links := ls3, tree := remove_link (tree s2)\<rparr>" by auto
  have st: "step_ok s1 s2" using run_commands_step[OF run] .
  have nl1: "next_link s1 = next_link s" and nr1: "next_river s1 = Suc r1"
    and tl1: "tree_links (tree s1) = []"
    using s1 r1 by (simp_all add: tree_links_remove_link)
  have nr2: "next_river s2 = Suc r1" using st nr1 by (simp add: step_ok_def)
  have A: "r1 \<noteq> r2" using r2 nr2 by simp
  have above: "\<forall>k \<in> set (tree_links (tree s2)). next_link s \<le> k"
    using st tl1 nl1 by (auto simp: step_ok_def)
  have B: "links s3 k = links s2 k \<and> links s2 k = links s1 k" if k: "k < next_link s" for k
  proof -
    have "k \<notin> set (tree_links (tree s2))" using above k by auto
    then have "ls3 k = links s2 k" using build_frame[OF bn2] by simp
    moreover have "links s2 k = links s1 k" using st k nl1 tl1 by (simp add: step_ok_def)
    ultimately show ?thesis using s3 by simp
  qed
  have C: "rivers s3 r = rivers s2 r" if "r \<noteq> r2" for r using that s3 r2 by simp
  have D: "river (links s3 k) = Some r1 \<and>
            (\<forall>n d w.
               map_sum id fst (Channel_get (Channel (Some k) n) s3)
                 = map_sum id fst (Channel_get (Channel (Some k) n) s2) \<and>
               map_sum id fst (Rivulet_read (Rivulet (Some k)) d s3)
                 = map_sum id fst (Rivulet_read (Rivulet (Some k)) d s2) \<and>
               Rivulet_size (Rivulet (Some k)) s3 = Rivulet_size (Rivulet (Some k)) s2 \<and>
               map_sum id (\<lambda>u. (rivers u r1, rivers u r2)) (Channel_set (Channel (Some k) n) w s3)
                 = map_sum id (\<lambda>u. (rivers u r1, rivers s3 r2)) (Channel_set (Channel (Some k) n) w s2) \<and>
               map_sum id (\<lambda>u. (rivers u r1, rivers u r2)) (Rivulet_write (Rivulet (Some k)) d s3)
                 = map_sum id (\<lambda>u. (rivers u r1, rivers s3 r2)) (Rivulet_write (Rivulet (Some k)) d s2))"
    if k: "k \<in> set (tree_links (tree s))" for k
  proof -
    have kl: "k < next_link s" using well_formed k by (simp add: well_formed_def list_all_iff)
    have "river (ls1 k) = Some r1" using build_river[OF bn1] k r1 by simp
    then have rv1: "river (links s1 k) = Some r1" using s1 by simp
    have l32: "links s3 k = links s2 k" and l21: "links s2 k = links s1 k" using B[OF kl] by simp_all
    have rv3: "river (links s3 k) = Some r1" and rv2: "river (links s2 k) = Some r1"
      using l32 l21 rv1 by simp_all
    have riv: "rivers s3 r1 = rivers s2 r1" using C[of r1] A by simp
    have rr: "\<And>r. river (links s3 k) = Some r \<Longrightarrow> rivers s3 r = rivers s2 r"
      using rv3 riv by simp
    have g: "map_sum id fst (Channel_get (Channel (Some k) n) s3)
                 = map_sum id fst (Channel_get (Channel (Some k) n) s2)" for n
      using Channel_get_cong[OF l32 rr] by simp
    have rd: "map_sum id fst (Rivulet_read (Rivulet (Some k)) d s3)
                 = map_sum id fst (Rivulet_read (Rivulet (Some k)) d s2)" for d
      using Rivulet_read_cong[OF l32 rr] by simp
    have sz: "Rivulet_size (Rivulet (Some k)) s3 = Rivulet_size (Rivulet (Some k)) s2"
      using Rivulet_size_cong[OF l32] .
    have ne3: "river (links s3 k) \<noteq> Some r2" using rv3 A by simp
    have w1: "map_sum id (\<lambda>u. (rivers u r1, rivers u r2)) (Channel_set (Channel (Some k) n) w s3)
                 = map_sum id (\<lambda>u. (rivers u r1, rivers s3 r2)) (Channel_set (Channel (Some k) n) w s2)"
      for n w
    proof (cases "Channel_set (Channel (Some k) n) w s3")
      case (Inl e)
      then show ?thesis using Channel_set_cong[OF l32 riv rv3, of n w]
        by (cases "Channel_set (Channel (Some k) n) w s2") auto
    next
      case (Inr u)
      then have "rivers u r2 = rivers s3 r2" using Channel_set_other_river[OF Inr ne3] by simp
      then show ?thesis using Channel_set_cong[OF l32 riv rv3, of n w] Inr
        by (cases "Channel_set (Channel (Some k) n) w s2") auto
    qed
    have w2: "map_sum id (\<lambda>u. (rivers u r1, rivers u r2)) (Rivulet_write (Rivulet (Some k)) d s3)
                 = map_sum id (\<lambda>u. (rivers u r1, rivers s3 r2)) (Rivulet_write (Rivulet (Some k)) d s2)"
      for d
    proof (cases "Rivulet_write (Rivulet (Some k)) d s3")
      case (Inl e)
      then show ?thesis using Rivulet_write_cong[OF l32 riv rv3, of d]
        by (cases "Rivulet_write (Rivulet (Some k)) d s2") auto
    next
      case (Inr u)
      then have "rivers u r2 = rivers s3 r2" using Rivulet_write_other_river[OF Inr ne3] by simp
      then show ?thesis using Rivulet_write_cong[OF l32 riv rv3, of d] Inr
        by (cases "Rivulet_write (Rivulet (Some k)) d s2") auto
    qed
    show ?thesis using rv3 g rd sz w1 w2 by blast
  qed
  show ?thesis using A B C D by blast
qed

theorem rebuild_independent_witness:
  "\<exists>h s r1 s1 s2 r2 s3.
     Builder_channel RootBuilder ''foo'' [32, 0, 0, 0] (Channel None 4) init_state = Inr (0, h, s) \<and>
     Builder_build RootBuilder s = Inr (0, Some r1, s1) \<and>
     run_commands [Set_op h [7, 0, 0, 0],
                   Channel_decl RootBuilder ''bar'' [1] (Channel None 1)] s1 = Inr s2 \<and>
     Builder_build RootBuilder s2 = Inr (0, Some r2, s3) \<and>
     r1 \<noteq> r2 \<and> links s3 0 = links s1 0 \<and> river (links s3 0) = Some r1 \<and>
     map_sum id fst (Channel_get h s3) = Inr [7, 0, 0, 0] \<and>
     rivers s3 r1 = [7, 0, 0, 0] \<and> rivers s3 r2 = [1]"
proof -
  obtain h s r1 s1 s2 r2 s3 where
    c1: "Builder_channel RootBuilder ''foo'' [32, 0, 0, 0] (Channel None 4) init_state = Inr (0, h, s)"
    and b1: "Builder_build RootBuilder s = Inr (0, Some r1, s1)"
    and run: "run_commands [Set_op h [7, 0, 0, 0],
                   Channel_decl RootBuilder ''bar'' [1] (Channel None 1)] s1 = Inr s2"
    and b2: "Builder_build RootBuilder s2 = Inr (0, Some r2, s3)"
    and h: "h = Channel (Some 0) 4"
    and well_formed: "well_formed s" and tl: "tree_links (tree s) = [0]" and nl: "next_link s = 1"
    and g2: "map_sum id fst (Channel_get h s2) = Inr [7, 0, 0, 0]"
    and r2: "rivers s2 r1 = [7, 0, 0, 0]" "rivers s3 r2 = [1]"
    by (simp add: run_simps handle_simps well_formed_def)
  note th = rebuild_independent[OF well_formed b1 run b2]
  have ne: "r1 \<noteq> r2" using th by blast
  have l: "links s3 0 = links s1 0" using th nl by simp
  have "0 \<in> set (tree_links (tree s))" using tl by simp
  then have rv: "river (links s3 0) = Some r1"
    and g: "map_sum id fst (Channel_get (Channel (Some 0) 4) s3)
          = map_sum id fst (Channel_get (Channel (Some 0) 4) s2)"
    using th by blast+
  have g3: "map_sum id fst (Channel_get h s3) = Inr [7, 0, 0, 0]" using g g2 h by simp
  have r3: "rivers s3 r1 = [7, 0, 0, 0]" using th ne r2(1) by simp
  show ?thesis
    apply (rule exI[of _ h], rule exI[of _ s], rule exI[of _ r1], rule exI[of _ s1])
    apply (rule exI[of _ s2], rule exI[of _ r2], rule exI[of _ s3])
    apply (intro conjI)
    apply (rule c1, rule b1, rule run, rule b2, rule ne, rule l, rule rv, rule g3, rule r3, rule r2(2))
    done
qed

section \<open>Declaring a channel twice\<close>

text \<open>
  Claim C7: after \<open>channel(path, v)\<close> has succeeded with handle \<open>h\<close>, and after any
  further declarations and handle operations \<open>cmds\<close>, a call \<open>channel(path, v')\<close> with any
  value and handle type returns \<open>ERR_DUPE\<close> and changes neither the state nor the caller's
  handle; the node still holds the first initial value and the link of \<open>h\<close>; and after
  \<open>build()\<close> the handle \<open>h\<close> reads \<open>v\<close>, and reads \<open>w\<close> after \<open>set(w)\<close>.
\<close>

theorem duplicate_channel:
  assumes well_formed: "well_formed s"
    and first: "Builder_channel b path v c s = Inr (0, h, s1)"
    and sz: "channel_size c = length v"
    and run: "run_commands cmds s1 = Inr s2"
  shows "Builder_channel b path v' c' s2 = Inr (ERR_DUPE, c', s2) \<and>
         (\<exists>n. node_at (tree s2) (root b @ snd (tokenize_path path)) = Some n \<and>
              channel_info n = Some v \<and> link n = channel_link h \<and> channel_size h = length v) \<and>
         (\<forall>bl ro s3. Builder_build bl s2 = Inr (0, ro, s3) \<longrightarrow>
            (\<exists>t. Channel_get h s3 = Inr (v, t)) \<and>
            (\<forall>w. length w = length v \<longrightarrow>
               (\<exists>s4 t. Channel_set h w s3 = Inr s4 \<and> Channel_get h s4 = Inr (w, t))))"
proof -
  from Builder_channel_success[OF first] obtain tokens k cs where
    tk: "tokenize_path path = (0, tokens)"
    and at1: "node_at (tree s1) (root b @ tokens) = Some (Node (last tokens) (Some v) (Some k) cs)"
    and h: "h = Channel (Some k) (length v)" using sz by auto
  let ?P = "root b @ tokens"
  have st: "step_ok s s2"
    using step_ok_trans[OF Builder_channel_step[OF first] run_commands_step[OF run]] .
  have wf2: "well_formed s2" using st well_formed by (simp add: step_ok_def)
  have "\<exists>m'. node_at (tree s2) ?P = Some m' \<and> channel_info m' = Some v \<and> link m' = Some k"
    using run_commands_step[OF run] at1 unfolding step_ok_def by force
  then obtain m where at2: "node_at (tree s2) ?P = Some m" and ci: "channel_info m = Some v"
    and lk: "link m = Some k" by blast
  have ins: "insert_node (tree s2) ?P True = (tree s2, Some m)" using insert_node_existing[OF at2] .
  have A: "Builder_channel b path v' c' s2 = Inr (ERR_DUPE, c', s2)"
    using tk ins ci by (simp add: Builder_channel_def)
  have B: "\<exists>n. node_at (tree s2) (root b @ snd (tokenize_path path)) = Some n \<and>
              channel_info n = Some v \<and> link n = channel_link h \<and> channel_size h = length v"
    using tk at2 ci lk h by simp
  have C: "(\<exists>t. Channel_get h s3 = Inr (v, t)) \<and>
            (\<forall>w. length w = length v \<longrightarrow>
               (\<exists>s4 t. Channel_set h w s3 = Inr s4 \<and> Channel_get h s4 = Inr (w, t)))"
    if bd: "Builder_build bl s2 = Inr (0, ro, s3)" for bl ro s3
  proof -
    have d: "distinct (tree_links (tree s2))" using wf2 by (simp add: well_formed_def)
    from build_channel_value[OF d at2 lk ci bd] obtain r off where
      rv: "river (links s3 k) = Some r" and off: "channel_offset (links s3 k) = Some off"
      and le: "off + length v \<le> length (rivers s3 r)"
      and val: "take (length v) (drop off (rivers s3 r)) = v" by blast
    have g: "\<exists>t. Channel_get h s3 = Inr (v, t)"
      using Channel_get_linked[OF rv off le] val h by simp
    have "\<exists>s4 t. Channel_set h w s3 = Inr s4 \<and> Channel_get h s4 = Inr (w, t)"
      if lw: "length w = length v" for w
    proof -
      define s4 where "s4 = release (lock (links s3 k))
                 ((acquire (lock (links s3 k)) s3)
                    \<lparr>rivers := (rivers s3)(r := memcpy (rivers s3 r) off w)\<rparr>)"
      have set: "Channel_set h w s3 = Inr s4"
        using Channel_set_linked[OF rv off le lw] h by (simp add: s4_def)
      have l4: "links s4 = links s3" and r4: "rivers s4 r = memcpy (rivers s3 r) off w"
        by (simp_all add: s4_def)
      have le': "off + length w \<le> length (rivers s3 r)" using le lw by simp
      have "off + length v \<le> length (rivers s4 r)"
        using le r4 length_memcpy[OF le'] by simp
      moreover have "take (length v) (drop off (rivers s4 r)) = w"
        using memcpy_read_back[OF le'] r4 lw by simp
      ultimately have "\<exists>t. Channel_get h s4 = Inr (w, t)"
        using Channel_get_linked[of s4 k r off "length v"] rv off l4 h by simp
      then show ?thesis using set by blast
    qed
    then show ?thesis using g by blast
  qed
  show ?thesis using A B C by blast
qed

theorem duplicate_channel_witness:
  "\<exists>h s1 s2 ro s3 t s4 t'.
     Builder_channel RootBuilder ''foo'' [0, 0, 0, 0] (Channel None 4) init_state = Inr (0, h, s1) \<and>
     run_commands [Channel_decl RootBuilder ''bar'' [5] (Channel None 1),
                   Channel_decl RootBuilder ''foo'' [9, 9, 9, 9] (Channel None 4)] s1 = Inr s2 \<and>
     Builder_channel RootBuilder ''foo'' [0, 0, 0, 0, 0, 0, 0, 0] (Channel None 8) s2
       = Inr (ERR_DUPE, Channel None 8, s2) \<and>
     Builder_build RootBuilder s2 = Inr (0, ro, s3) \<and>
     Channel_get h s3 = Inr ([0, 0, 0, 0], t) \<and>
     Channel_set h [1, 0, 0, 0] s3 = Inr s4 \<and>
     Channel_get h s4 = Inr ([1, 0, 0, 0], t')"
proof -
  obtain h s1 s2 ro s3 where
    c1: "Builder_channel RootBuilder ''foo'' [0, 0, 0, 0] (Channel None 4) init_state = Inr (0, h, s1)"
    and run: "run_commands [Channel_decl RootBuilder ''bar'' [5] (Channel None 1),
                   Channel_decl RootBuilder ''foo'' [9, 9, 9, 9] (Channel None 4)] s1 = Inr s2"
    and bd: "Builder_build RootBuilder s2 = Inr (0, ro, s3)"
    by (simp add: run_simps)
  have well_formed: "well_formed init_state" by (simp add: well_formed_def init_state_def)
  have sz: "channel_size (Channel None 4) = length [0, 0, 0, 0 :: byte]" by simp
  note th = duplicate_channel[OF well_formed c1 sz run, of "[0, 0, 0, 0, 0, 0, 0, 0]" "Channel None 8"]
  have dupe: "Builder_channel RootBuilder ''foo'' [0, 0, 0, 0, 0, 0, 0, 0] (Channel None 8) s2
       = Inr (ERR_DUPE, Channel None 8, s2)" using th by blast
  have after: "(\<exists>t. Channel_get h s3 = Inr ([0, 0, 0, 0], t)) \<and>
            (\<forall>w. length w = length [0, 0, 0, 0 :: byte] \<longrightarrow>
               (\<exists>s4 t. Channel_set h w s3 = Inr s4 \<and> Channel_get h s4 = Inr (w, t)))"
    using th bd by blast
  then obtain t where g: "Channel_get h s3 = Inr ([0, 0, 0, 0], t)" by blast
  from after have "\<exists>s4 t. Channel_set h [1, 0, 0, 0] s3 = Inr s4 \<and> Channel_get h s4 = Inr ([1, 0, 0, 0], t)"
    by simp
  then obtain s4 t' where st: "Channel_set h [1, 0, 0, 0] s3 = Inr s4"
    and g': "Channel_get h s4 = Inr ([1, 0, 0, 0], t')" by blast
  show ?thesis
    apply (rule exI[of _ h], rule exI[of _ s1], rule exI[of _ s2], rule exI[of _ ro])
    apply (rule exI[of _ s3], rule exI[of _ t], rule exI[of _ s4], rule exI[of _ t'])
    apply (intro conjI)
    apply (rule c1, rule run, rule dupe, rule bd, rule g, rule st, rule g')
    done
qed

section \<open>Conflicting locks\<close>

text \<open>
  Claim C8, as amended: let \<open>lock(p, L)\<close> succeed with a lock object \<open>L\<close> (not null), and
  let any declarations and handle operations \<open>cmds\<close> follow, but no \<open>build()\<close>. Let the
  node at \<open>q\<close> exist then, with every node of its subtree holding a link. The state before
  \<open>lock(p, L)\<close> has the heap shape of every reachable state (\<open>well_formed\<close>).
  If \<open>q\<close> is \<open>p\<close>, an ancestor of \<open>p\<close>, or a descendant of \<open>p\<close> that existed already when
  \<open>lock(p, L)\<close> was called, \<open>lock(q, L')\<close> returns \<open>ERR_DUPE\<close> and changes nothing.
  For every \<open>q\<close>: if no link of \<open>q\<close>'s subtree holds a lock at that time, \<open>lock(q, L')\<close>
  returns 0 and stores \<open>L'\<close> in every link of \<open>q\<close>'s subtree; if one does, it returns
  \<open>ERR_DUPE\<close> and changes nothing.
  When \<open>lock(q, L')\<close> is the next call after \<open>lock(p, L)\<close> (\<open>cmds\<close> is empty), the subtrees
  are disjoint and no link of \<open>q\<close>'s subtree held a lock before \<open>lock(p, L)\<close>, it returns
  0 and stores \<open>L'\<close> in every link of \<open>q\<close>'s subtree.

  The claim as stated promises \<open>ERR_DUPE\<close> for every descendant, after every successful
  \<open>lock(p, L)\<close>, and 0 for every disjoint subtree.
\<close>

theorem lock_conflict:
  assumes w: "well_formed s"
    and first: "Builder_lock b p (Some l) s = Inr (0, s1)"
    and run: "run_commands cmds s1 = Inr s2"
    and tq: "tokenize_path q = (0, tq)"
    and nq: "node_at (tree s2) (root b' @ tq) = Some nq"
    and al: "all_linked nq"
  shows "(prefix (root b' @ tq) (root b @ snd (tokenize_path p)) \<or>
          prefix (root b @ snd (tokenize_path p)) (root b' @ tq) \<and>
            node_at (tree s) (root b' @ tq) \<noteq> None \<longrightarrow>
            Builder_lock b' q lk' s2 = Inr (ERR_DUPE, s2)) \<and>
         (lock_free (links s2) nq \<longrightarrow>
            Builder_lock b' q lk' s2 = Inr (0, s2\<lparr>links := with_lock lk' nq (links s2)\<rparr>)) \<and>
         (\<not> lock_free (links s2) nq \<longrightarrow> Builder_lock b' q lk' s2 = Inr (ERR_DUPE, s2)) \<and>
         (cmds = [] \<and> \<not> prefix (root b @ snd (tokenize_path p)) (root b' @ tq) \<and>
          \<not> prefix (root b' @ tq) (root b @ snd (tokenize_path p)) \<and>
          lock_free (links s) nq \<longrightarrow>
            Builder_lock b' q lk' s2 = Inr (0, s2\<lparr>links := with_lock lk' nq (links s2)\<rparr>))"
proof -
  from Builder_lock_success[OF first] obtain tp np where
    tp: "tokenize_path p = (0, tp)" and np: "node_at (tree s) (root b @ tp) = Some np"
    and alp: "all_linked np" and lfp: "lock_free (links s) np"
    and s1: "s1 = s\<lparr>links := with_lock (Some l) np (links s)\<rparr>" by blast
  let ?P = "root b @ tp" and ?Q = "root b' @ tq"
  have tr: "tree s1 = tree s" and ls1: "links s1 = with_lock (Some l) np (links s)" using s1 by simp_all
  have w1: "well_formed s1" using w s1 by (simp add: well_formed_def)
  have w2: "well_formed s2" using wf_run_commands[OF w1 run] .
  have d2: "distinct (tree_links nq)"
    using node_at_distinct[OF nq] w2 by (simp add: well_formed_def)
  have kept: "\<exists>m'. node_at (tree s2) r = Some m' \<and> link m' = Some k \<and> lock (links s2 k) = Some l"
    if "node_at (tree s) r = Some m" "link m = Some k" "k \<in> set (tree_links np)" for r m k
  proof -
    have "lock (links s1 k) = Some l" using that(3) ls1 by (simp add: with_lock_def)
    then show ?thesis using run_commands_keeps_lock[OF run w1, of r m k l] that(1,2) tr by simp
  qed
  have B: "Builder_lock b' q lk' s2 = Inr (0, s2\<lparr>links := with_lock lk' nq (links s2)\<rparr>)"
    if "lock_free (links s2) nq"
    using Builder_lock_free[OF tq nq al that d2] .
  have C: "Builder_lock b' q lk' s2 = Inr (ERR_DUPE, s2)" if "\<not> lock_free (links s2) nq"
    using Builder_lock_dupe[OF tq nq al that] .
  have A: "Builder_lock b' q lk' s2 = Inr (ERR_DUPE, s2)"
    if pq: "prefix ?Q ?P \<or> prefix ?P ?Q \<and> node_at (tree s) ?Q \<noteq> None"
  proof -
    have "\<exists>k \<in> set (tree_links nq). lock (links s2 k) \<noteq> None"
    proof (cases "prefix ?Q ?P")
      case True
      then obtain zs where zs: "?P = ?Q @ zs" by (auto simp: prefix_def)
      obtain kp where kp: "link np = Some kp" "kp \<in> set (tree_links np)"
        using all_linked_root[OF alp] by blast
      from kept[OF np kp] obtain m' where
        m': "node_at (tree s2) ?P = Some m'" "link m' = Some kp" "lock (links s2 kp) = Some l" by blast
      have "node_at nq zs = Some m'" using m'(1) nq node_at_append[of "tree s2" ?Q zs] zs by simp
      then have "set (tree_links m') \<subseteq> set (tree_links nq)" by (rule node_at_links_subset)
      moreover have "kp \<in> set (tree_links m')" using tree_links_node[of m'] m'(2) by simp
      ultimately show ?thesis using m'(3) by auto
    next
      case False
      then have pf: "prefix ?P ?Q" and ex: "node_at (tree s) ?Q \<noteq> None" using pq by simp_all
      then obtain nq0 where nq0: "node_at (tree s) ?Q = Some nq0" by auto
      from pf obtain zs where zs: "?Q = ?P @ zs" by (auto simp: prefix_def)
      have sub: "node_at np zs = Some nq0" using nq0 np node_at_append[of "tree s" ?P zs] zs by simp
      have "all_linked nq0" using all_linked_node_at[OF sub alp] .
      then obtain kq where kq: "link nq0 = Some kq" "kq \<in> set (tree_links nq0)"
        using all_linked_root by blast
      have "kq \<in> set (tree_links np)" using node_at_links_subset[OF sub] kq(2) by blast
      from kept[OF nq0 kq(1) this] obtain m' where
        m': "node_at (tree s2) ?Q = Some m'" "link m' = Some kq" "lock (links s2 kq) = Some l" by blast
      then have "m' = nq" using nq by simp
      then have "kq \<in> set (tree_links nq)" using tree_links_node[of nq] m'(2) by simp
      then show ?thesis using m'(3) by auto
    qed
    then have "\<not> lock_free (links s2) nq" by (auto simp: lock_free_def list_all_iff)
    then show ?thesis by (rule C)
  qed
  have D: "Builder_lock b' q lk' s2 = Inr (0, s2\<lparr>links := with_lock lk' nq (links s2)\<rparr>)"
    if e: "cmds = []" and npq: "\<not> prefix ?P ?Q" "\<not> prefix ?Q ?P" and lf: "lock_free (links s) nq"
  proof -
    have s2: "s2 = s1" using run e by simp
    have nq': "node_at (tree s) ?Q = Some nq" using nq s2 tr by simp
    have d: "distinct (tree_links (tree s))" using w by (simp add: well_formed_def)
    have dj: "set (tree_links np) \<inter> set (tree_links nq) = {}"
      using disjoint_subtrees[OF np nq' d npq] .
    have "lock_free (links s1) nq"
      unfolding lock_free_def list_all_iff
    proof
      fix k assume k: "k \<in> set (tree_links nq)"
      then have "k \<notin> set (tree_links np)" using dj by blast
      then have "links s1 k = links s k" using ls1 by (simp add: with_lock_def)
      then show "lock (links s1 k) = None" using lf k by (simp add: lock_free_def list_all_iff)
    qed
    then show ?thesis using B s2 by simp
  qed
  show ?thesis using A B C D tp by simp
qed

theorem lock_conflict_witness:
  "\<exists>h1 s1 h2 s2 h3 s3 h4 s4 s5 s6 s7 s8.
     Builder_channel RootBuilder ''a'' [1] (Channel None 1) init_state = Inr (0, h1, s1) \<and>
     Builder_channel RootBuilder ''a.c'' [3] (Channel None 1) s1 = Inr (0, h2, s2) \<and>
     Builder_channel RootBuilder ''a.c.e'' [5] (Channel None 1) s2 = Inr (0, h3, s3) \<and>
     Builder_channel RootBuilder ''b'' [2] (Channel None 1) s3 = Inr (0, h4, s4) \<and>
     Builder_lock RootBuilder ''a.c'' (Some 7) s4 = Inr (0, s5) \<and>
     Builder_lock RootBuilder ''b'' (Some 8) s5 = Inr (0, s6) \<and>
     run_commands [Lock_decl RootBuilder ''b'' (Some 8),
                   Channel_decl RootBuilder ''a.c.d'' [4] (Channel None 1)] s5 = Inr s7 \<and>
     Builder_lock RootBuilder ''a'' (Some 9) s7 = Inr (ERR_DUPE, s7) \<and>
     Builder_lock RootBuilder ''a.c.e'' (Some 9) s7 = Inr (ERR_DUPE, s7) \<and>
     Builder_lock RootBuilder ''b'' (Some 9) s7 = Inr (ERR_DUPE, s7) \<and>
     Builder_lock RootBuilder ''a.c.d'' (Some 9) s7 = Inr (0, s8) \<and>
     map (\<lambda>k. lock (links s6 k)) [0, 1, 2, 3] = [None, Some 7, Some 7, Some 8] \<and>
     map (\<lambda>k. lock (links s8 k)) [0, 1, 2, 3, 4] = [None, Some 7, Some 7, Some 8, Some 9]"
proof -
  let ?e = "Node ''e'' (Some [5]) (Some 2) []"
  let ?d = "Node ''d'' (Some [4]) (Some 4) []"
  let ?b = "Node ''b'' (Some [2]) (Some 3) []"
  let ?a = "Node ''a'' (Some [1]) (Some 0) [Node ''c'' (Some [3]) (Some 1) [?e, ?d]]"
  obtain h1 s1 h2 s2 h3 s3 h4 s4 s5 s7 where
    c1: "Builder_channel RootBuilder ''a'' [1] (Channel None 1) init_state = Inr (0, h1, s1)"
    and c2: "Builder_channel RootBuilder ''a.c'' [3] (Channel None 1) s1 = Inr (0, h2, s2)"
    and c3: "Builder_channel RootBuilder ''a.c.e'' [5] (Channel None 1) s2 = Inr (0, h3, s3)"
    and c4: "Builder_channel RootBuilder ''b'' [2] (Channel None 1) s3 = Inr (0, h4, s4)"
    and first: "Builder_lock RootBuilder ''a.c'' (Some 7) s4 = Inr (0, s5)"
    and run: "run_commands [Lock_decl RootBuilder ''b'' (Some 8),
                   Channel_decl RootBuilder ''a.c.d'' [4] (Channel None 1)] s5 = Inr s7"
    and w: "well_formed s4"
    and e4: "node_at (tree s4) (root RootBuilder @ [''a'', ''c'', ''e'']) \<noteq> None"
    and b5: "node_at (tree s5) (root RootBuilder @ [''b'']) = Some ?b"
    and lf4: "lock_free (links s4) ?b"
    and l5: "map (\<lambda>k. lock (links s5 k)) [0, 1, 2, 3] = [None, Some 7, Some 7, None]"
    and a7: "node_at (tree s7) (root RootBuilder @ [''a'']) = Some ?a"
    and e7: "node_at (tree s7) (root RootBuilder @ [''a'', ''c'', ''e'']) = Some ?e"
    and b7: "node_at (tree s7) (root RootBuilder @ [''b'']) = Some ?b"
    and d7: "node_at (tree s7) (root RootBuilder @ [''a'', ''c'', ''d'']) = Some ?d"
    and l7: "map (\<lambda>k. lock (links s7 k)) [0, 1, 2, 3, 4] = [None, Some 7, Some 7, Some 8, None]"
    by (simp add: lock_simps)
  have run0: "run_commands [] s5 = Inr s5" by simp
  have tp: "snd (tokenize_path ''a.c'') = [''a'', ''c'']" by (simp add: run_simps)
  have ta: "tokenize_path ''a'' = (0, [''a''])" by (simp add: run_simps)
  have te: "tokenize_path ''a.c.e'' = (0, [''a'', ''c'', ''e''])" by (simp add: run_simps)
  have tb: "tokenize_path ''b'' = (0, [''b''])" by (simp add: run_simps)
  have td: "tokenize_path ''a.c.d'' = (0, [''a'', ''c'', ''d''])" by (simp add: run_simps)
  define s6 where "s6 = s5\<lparr>links := with_lock (Some 8) ?b (links s5)\<rparr>"
  define s8 where "s8 = s7\<lparr>links := with_lock (Some 9) ?d (links s7)\<rparr>"
  from lock_conflict[OF w first run0 tb b5, of "Some 8"]
  have r1: "Builder_lock RootBuilder ''b'' (Some 8) s5 = Inr (0, s6)"
    using tp lf4 by (simp add: s6_def)
  from lock_conflict[OF w first run ta a7, of "Some 9"]
  have r2: "Builder_lock RootBuilder ''a'' (Some 9) s7 = Inr (ERR_DUPE, s7)"
    using tp by simp
  from lock_conflict[OF w first run te e7, of "Some 9"]
  have r3: "Builder_lock RootBuilder ''a.c.e'' (Some 9) s7 = Inr (ERR_DUPE, s7)"
    using tp e4 by simp
  have "\<not> lock_free (links s7) ?b" using l7 by (simp add: lock_free_def)
  with lock_conflict[OF w first run tb b7, of "Some 9"]
  have r4: "Builder_lock RootBuilder ''b'' (Some 9) s7 = Inr (ERR_DUPE, s7)"
    by simp
  have "lock_free (links s7) ?d" using l7 by (simp add: lock_free_def)
  with lock_conflict[OF w first run td d7, of "Some 9"]
  have r5: "Builder_lock RootBuilder ''a.c.d'' (Some 9) s7 = Inr (0, s8)"
    by (simp add: s8_def)
  have l6: "map (\<lambda>k. lock (links s6 k)) [0, 1, 2, 3] = [None, Some 7, Some 7, Some 8]"
    using l5 by (simp add: with_lock_def s6_def)
  have l8: "map (\<lambda>k. lock (links s8 k)) [0, 1, 2, 3, 4] = [None, Some 7, Some 7, Some 8, Some 9]"
    using l7 by (simp add: with_lock_def s8_def)
  show ?thesis
    apply (rule exI[of _ h1], rule exI[of _ s1], rule exI[of _ h2], rule exI[of _ s2])
    apply (rule exI[of _ h3], rule exI[of _ s3], rule exI[of _ h4], rule exI[of _ s4])
    apply (rule exI[of _ s5], rule exI[of _ s6], rule exI[of _ s7], rule exI[of _ s8])
    apply (intro conjI)
    apply (rule c1, rule c2, rule c3, rule c4, rule first, rule r1, rule run)
    apply (rule r2, rule r3, rule r4, rule r5, rule l6, rule l8)
    done
qed

text \<open>Five runs in which the claim as stated fails. \<open>b\<close> is locked first, then \<open>a\<close>:
  locking \<open>b\<close> again fails although \<open>b\<close> is disjoint from \<open>a\<close>. The same with \<open>a\<close> locked
  first, then \<open>b\<close>, which held no lock before \<open>lock("a", L)\<close>. \<open>lock("a", nullptr)\<close>
  returns 0 and a later \<open>lock("a", L')\<close> returns 0 as well. The channel \<open>a.b\<close> is declared
  after \<open>a\<close> was locked: \<open>lock("a.b", L')\<close> returns 0, and the two locks overlap. After
  \<open>build()\<close> the node \<open>a\<close> has lost its link, \<open>rivulet("a")\<close> gives it a new one, and
  \<open>lock("a", L')\<close> returns 0.\<close>

theorem lock_conflict_counterexample:
  "(\<exists>h1 s1 h2 s2 s3 s4.
      Builder_channel RootBuilder ''a'' [1] (Channel None 1) init_state = Inr (0, h1, s1) \<and>
      Builder_channel RootBuilder ''b'' [2] (Channel None 1) s1 = Inr (0, h2, s2) \<and>
      Builder_lock RootBuilder ''b'' (Some 6) s2 = Inr (0, s3) \<and>
      Builder_lock RootBuilder ''a'' (Some 7) s3 = Inr (0, s4) \<and>
      \<not> prefix [''a''] [''b''] \<and> \<not> prefix [''b''] [''a''] \<and>
      Builder_lock RootBuilder ''b'' (Some 8) s4 = Inr (ERR_DUPE, s4)) \<and>
   (\<exists>h1 s1 h2 s2 s3 s4.
      Builder_channel RootBuilder ''a'' [1] (Channel None 1) init_state = Inr (0, h1, s1) \<and>
      Builder_channel RootBuilder ''b'' [2] (Channel None 1) s1 = Inr (0, h2, s2) \<and>
      lock (links s2 1) = None \<and>
      Builder_lock RootBuilder ''a'' (Some 7) s2 = Inr (0, s3) \<and>
      Builder_lock RootBuilder ''b'' (Some 6) s3 = Inr (0, s4) \<and>
      Builder_lock RootBuilder ''b'' (Some 8) s4 = Inr (ERR_DUPE, s4)) \<and>
   (\<exists>h1 s1 s2 s3.
      Builder_channel RootBuilder ''a'' [1] (Channel None 1) init_state = Inr (0, h1, s1) \<and>
      Builder_lock RootBuilder ''a'' None s1 = Inr (0, s2) \<and>
      Builder_lock RootBuilder ''a'' (Some 8) s2 = Inr (0, s3) \<and>
      lock (links s3 0) = Some 8) \<and>
   (\<exists>h1 s1 s2 h2 s3 s4.
      Builder_channel RootBuilder ''a'' [1] (Channel None 1) init_state = Inr (0, h1, s1) \<and>
      Builder_lock RootBuilder ''a'' (Some 7) s1 = Inr (0, s2) \<and>
      Builder_channel RootBuilder ''a.b'' [2] (Channel None 1) s2 = Inr (0, h2, s3) \<and>
      prefix [''a''] [''a'', ''b''] \<and>
      Builder_lock RootBuilder ''a.b'' (Some 8) s3 = Inr (0, s4) \<and>
      map (\<lambda>k. lock (links s4 k)) [0, 1] = [Some 7, Some 8]) \<and>
   (\<exists>h1 s1 s2 r s3 h2 s4 s5.
      Builder_channel RootBuilder ''a'' [1] (Channel None 1) init_state = Inr (0, h1, s1) \<and>
      Builder_lock RootBuilder ''a'' (Some 7) s1 = Inr (0, s2) \<and>
      Builder_build RootBuilder s2 = Inr (0, Some r, s3) \<and>
      Builder_rivulet RootBuilder ''a'' (Rivulet None) s3 = Inr (0, h2, s4) \<and>
      Builder_lock RootBuilder ''a'' (Some 8) s4 = Inr (0, s5) \<and>
      h1 = Channel (Some 0) 1 \<and> h2 = Rivulet (Some 1) \<and>
      map (\<lambda>k. lock (links s5 k)) [0, 1] = [Some 7, Some 8])"
  by (simp add: run_simps)

section \<open>Unlinked handles\<close>

text \<open>
  Claim C9: on a handle that is not linked, \<open>Channel::get()\<close> returns the zero value of
  the type, \<open>Channel::set()\<close>, \<open>Rivulet::read()\<close> and \<open>Rivulet::write()\<close> change nothing,
  \<open>Rivulet::size()\<close> is 0, and \<open>read\<close>/\<open>write\<close> with a null pointer change nothing on any
  handle \<open>h'\<close>. Each operation returns normally, with the state it was given: no river is
  read or written and no lock is taken.
\<close>

theorem unlinked_handle_noop:
  assumes "\<not> linked (channel_link c) s" and "\<not> linked (rivulet_link h) s"
  shows "Channel_get c s = Inr (replicate (channel_size c) 0, s) \<and>
         Channel_set c val s = Inr s \<and>
         Rivulet_read h dest s = Inr (dest, s) \<and>
         Rivulet_write h src s = Inr s \<and>
         Rivulet_read h' None s = Inr (None, s) \<and>
         Rivulet_write h' None s = Inr s \<and>
         Rivulet_size h s = Inr 0"
  using assms
  by (simp add: Channel_get_def Channel_set_def serialize_def deserialize_def
      Rivulet_read_def Rivulet_write_def Rivulet_size_def)

theorem unlinked_handle_noop_witness:
  "\<exists>c s1. Builder_channel RootBuilder ''foo'' [32, 0, 0, 0] (Channel None 4) init_state = Inr (0, c, s1) \<and>
     channel_link c = Some 0 \<and> \<not> linked (channel_link c) s1 \<and> \<not> linked (rivulet_link (Rivulet (Some 0))) s1 \<and>
     Channel_get c s1 = Inr ([0, 0, 0, 0], s1) \<and>
     Channel_set c [7, 7, 7, 7] s1 = Inr s1 \<and>
     Rivulet_read (Rivulet (Some 0)) (Some [5]) s1 = Inr (Some [5], s1) \<and>
     Rivulet_write (Rivulet (Some 0)) (Some [5]) s1 = Inr s1 \<and>
     Rivulet_read (Rivulet (Some 0)) None s1 = Inr (None, s1) \<and>
     Rivulet_write (Rivulet (Some 0)) None s1 = Inr s1 \<and>
     Rivulet_size (Rivulet (Some 0)) s1 = Inr 0"
proof -
  obtain c s1 where ch: "Builder_channel RootBuilder ''foo'' [32, 0, 0, 0] (Channel None 4) init_state = Inr (0, c, s1)"
    and c: "c = Channel (Some 0) 4" and l: "river (links s1 0) = None"
    by (simp add: run_simps)
  have u1: "\<not> linked (channel_link c) s1" and u2: "\<not> linked (rivulet_link (Rivulet (Some 0))) s1"
    using c l by (simp_all add: linked_def)
  from unlinked_handle_noop[OF u1 u2, of "[7, 7, 7, 7]" "Some [5]" "Some [5]" "Rivulet (Some 0)"]
  show ?thesis using ch c u1 u2 by (simp add: numeral_eq_Suc)
qed

section \<open>Failed declarations and the caller's handle\<close>

text \<open>
  Claim C10: when \<open>channel()\<close> or \<open>rivulet()\<close> returns an error code, the caller's handle
  is what it was before the call; a handle that had no link then is unlinked in every
  later state \<open>s2\<close>, whatever was built meanwhile: \<open>get()\<close> returns zero bytes and
  \<open>set()\<close>, \<open>read()\<close>, \<open>write()\<close> change nothing.
\<close>

theorem failed_declaration_keeps_handle:
  "(Builder_channel b path v c s = Inr (code, c', s1) \<and> code \<noteq> 0 \<longrightarrow>
      c' = c \<and> (code = ERR_INVALID \<or> code = ERR_DUPE) \<and>
      (channel_link c = None \<longrightarrow>
        (\<forall>s2 val. \<not> linked (channel_link c') s2 \<and>
                  Channel_get c' s2 = Inr (replicate (channel_size c') 0, s2) \<and>
                  Channel_set c' val s2 = Inr s2))) \<and>
   (Builder_rivulet b path h s = Inr (code', h', s1') \<and> code' \<noteq> 0 \<longrightarrow>
      h' = h \<and> (code' = ERR_INVALID \<or> code' = ERR_NOTFOUND) \<and>
      (rivulet_link h = None \<longrightarrow>
        (\<forall>s2 buf. \<not> linked (rivulet_link h') s2 \<and>
                  Rivulet_read h' buf s2 = Inr (buf, s2) \<and>
                  Rivulet_write h' buf s2 = Inr s2 \<and>
                  Rivulet_size h' s2 = Inr 0)))"
proof -
  have A: "c' = c \<and> (code = ERR_INVALID \<or> code = ERR_DUPE)"
    if "Builder_channel b path v c s = Inr (code, c', s1)" "code \<noteq> 0"
    using that tokenize_path_code[of path]
    by (auto simp: Builder_channel_def split: prod.splits if_splits option.splits)
  have B: "h' = h \<and> (code' = ERR_INVALID \<or> code' = ERR_NOTFOUND)"
    if "Builder_rivulet b path h s = Inr (code', h', s1')" "code' \<noteq> 0"
    using that tokenize_path_code[of path]
    by (auto simp: Builder_rivulet_def split: prod.splits if_splits option.splits)
  have C: "\<not> linked None s2" for s2 by (simp add: linked_def)
  show ?thesis
    using A B C
    by (auto simp: Channel_get_def Channel_set_def serialize_def deserialize_def
        Rivulet_read_def Rivulet_write_def Rivulet_size_def)
qed


theorem failed_declaration_keeps_handle_witness:
  "\<exists>c0 s1.
     Builder_channel RootBuilder ''foo'' [0, 0, 0, 0] (Channel None 4) init_state = Inr (0, c0, s1) \<and>
     Builder_channel RootBuilder ''foo'' [0, 0, 0, 0, 0, 0, 0, 0] (Channel None 8) s1
       = Inr (ERR_DUPE, Channel None 8, s1) \<and>
     Builder_rivulet RootBuilder ''bar'' (Rivulet None) s1 = Inr (ERR_NOTFOUND, Rivulet None, s1) \<and>
     (\<forall>s2 val. Channel_get (Channel None 8) s2 = Inr (replicate 8 0, s2) \<and>
               Channel_set (Channel None 8) val s2 = Inr s2) \<and>
     (\<forall>s2 buf. Rivulet_read (Rivulet None) buf s2 = Inr (buf, s2) \<and>
               Rivulet_write (Rivulet None) buf s2 = Inr s2 \<and>
               Rivulet_size (Rivulet None) s2 = Inr 0)"
proof -
  obtain c0 s1 where
    a: "Builder_channel RootBuilder ''foo'' [0, 0, 0, 0] (Channel None 4) init_state = Inr (0, c0, s1)"
    and b: "Builder_channel RootBuilder ''foo'' [0, 0, 0, 0, 0, 0, 0, 0] (Channel None 8) s1
       = Inr (ERR_DUPE, Channel None 8, s1)"
    and c: "Builder_rivulet RootBuilder ''bar'' (Rivulet None) s1 = Inr (ERR_NOTFOUND, Rivulet None, s1)"
    by (simp add: run_simps)
  from failed_declaration_keeps_handle[where b = RootBuilder and path = "''foo''"
      and v = "[0, 0, 0, 0, 0, 0, 0, 0]" and c = "Channel None 8" and s = s1 and code = ERR_DUPE
      and c' = "Channel None 8" and ?s1.0 = s1]
  have d: "\<forall>s2 val. Channel_get (Channel None 8) s2 = Inr (replicate 8 0, s2) \<and>
               Channel_set (Channel None 8) val s2 = Inr s2"
    using b by simp
  from failed_declaration_keeps_handle[where b = RootBuilder and path = "''bar''"
      and h = "Rivulet None" and s = s1 and code' = ERR_NOTFOUND and h' = "Rivulet None"
      and s1' = s1]
  have e: "\<forall>s2 buf. Rivulet_read (Rivulet None) buf s2 = Inr (buf, s2) \<and>
               Rivulet_write (Rivulet None) buf s2 = Inr s2 \<and>
               Rivulet_size (Rivulet None) s2 = Inr 0"
    using c by simp
  show ?thesis using a b c d e by blast
qed

end
